theory Spec2Isabelle
  imports Main "HOL-Library.Word"
begin

text \<open>
  A shallow embedding of package \<^verbatim>\<open>argon3\<close> (\<^verbatim>\<open>argon3.go\<close>, \<^verbatim>\<open>blake3.go\<close>): a variant of
  the Argon2 memory-hard key derivation function whose hash primitive is BLAKE3.

  \<^item> \<^verbatim>\<open>uint8\<close>, \<^verbatim>\<open>uint32\<close> and \<^verbatim>\<open>uint64\<close> are words of that width, so every \<open>+\<close>, \<open>-\<close> and
    \<open>*\<close> wraps as in Go; a \<^verbatim>\<open>[128]uint64\<close> block is a list of 64-bit words and the
    \<^verbatim>\<open>[]block\<close> matrix a list of blocks, updated by index.
  \<^item> A Go panic is a value: the two \<^verbatim>\<open>panic(...)\<close> calls of \<^verbatim>\<open>deriveKey\<close>, an index out
    of range and an integer division by zero are the constructors of \<open>error\<close>, and every
    function that can panic returns \<open>error + 'a\<close>.
  \<^item> The external BLAKE3 hasher is a parameter \<open>H\<close>: \<open>H input i\<close> is byte \<open>i\<close> of the
    extendable output over \<open>input\<close>. Reading into a buffer of \<open>n\<close> bytes yields bytes
    \<open>0..<n\<close> of that stream.
  \<^item> The goroutines that \<^verbatim>\<open>processBlocks\<close> starts for the lanes of one slice are run one
    after the other, lane 0 first; the \<^verbatim>\<open>WaitGroup\<close> barrier is the end of that loop.
\<close>

unbundle bit_operations_syntax

section \<open>Constants and basic types of package argon3\<close>

type_synonym byte = "8 word"
type_synonym u32 = "32 word"
type_synonym u64 = "64 word"

text \<open>\<^verbatim>\<open>const Version = 0x13\<close>, \<^verbatim>\<open>blockLength = 128\<close>, \<^verbatim>\<open>syncPoints = 4\<close>.\<close>

definition Version :: u32 where
  "Version = 0x13"

definition syncPoints :: u32 where
  "syncPoints = 4"

definition blockLength :: nat where
  "blockLength = 128"

text \<open>The mode constants are consecutive Go \<^verbatim>\<open>int\<close>s (\<^verbatim>\<open>iota\<close>).\<close>

definition argon3d :: int where
  "argon3d = 0"

definition argon3i :: int where
  "argon3i = 1"

definition argon3id :: int where
  "argon3id = 2"

datatype error =
    RoundsTooSmall        \<comment> \<open>\<^verbatim>\<open>panic("argon3: number of rounds too small")\<close>\<close>
  | ParallelismTooLow     \<comment> \<open>\<^verbatim>\<open>panic("argon3: parallelism degree too low")\<close>\<close>
  | IndexOutOfRange       \<comment> \<open>run-time panic of a slice index\<close>
  | DivideByZero          \<comment> \<open>run-time panic of \<^verbatim>\<open>/\<close> and \<^verbatim>\<open>%\<close>\<close>

text \<open>\<^verbatim>\<open>type block [blockLength]uint64\<close>; a fresh \<^verbatim>\<open>var b block\<close> is all zero.\<close>

type_synonym block = "u64 list"

definition zeroBlock :: block where
  "zeroBlock = replicate blockLength 0"

section \<open>Loops\<close>

text \<open>
  \<^verbatim>\<open>for i := lo; i < hi; i++ { body }\<close> over a \<^verbatim>\<open>uint32\<close> counter, the body acting on the
  state \<open>s\<close>; a panic in the body ends the loop. The counter cannot wrap: it is below
  \<open>hi\<close> when it is incremented.
\<close>

function forLoop :: "u32 \<Rightarrow> u32 \<Rightarrow> (u32 \<Rightarrow> 's \<Rightarrow> error + 's) \<Rightarrow> 's \<Rightarrow> error + 's" where
  "forLoop i hi body s =
     (if i < hi
      then (case body i s of Inl e \<Rightarrow> Inl e | Inr s' \<Rightarrow> forLoop (i + 1) hi body s')
      else Inr s)"
  by pat_completeness auto
termination
proof (relation "measure (\<lambda>(i, hi, body, s). unat hi - unat i)")
  show "wf (measure (\<lambda>(i, hi, body, s). unat hi - unat i))" by simp
next
  fix i hi :: u32 and body :: "u32 \<Rightarrow> 's \<Rightarrow> error + 's" and s s' :: 's
  assume "i < hi"
  then have lt: "unat i < unat hi" by (simp add: word_less_nat_alt)
  have "unat hi < 2 ^ LENGTH(32)" by (rule unsigned_less)
  with lt have "unat i + unat (1 :: u32) < 2 ^ LENGTH(32)" by simp
  then have "unat (i + 1) = unat i + unat (1 :: u32)" by (rule unat_add_lem [THEN iffD1])
  then have "unat (i + 1) = unat i + 1" by simp
  with lt show "((i + 1, hi, body, s'), (i, hi, body, s)) \<in> measure (\<lambda>(i, hi, body, s). unat hi - unat i)"
    by simp
qed

declare forLoop.simps [simp del]

section \<open>Parameter normalisation\<close>

text \<open>
  Lines 122--125 of \<^verbatim>\<open>deriveKey\<close>: the requested memory is rounded down to a multiple of
  \<^verbatim>\<open>syncPoints * threads\<close> and raised to \<^verbatim>\<open>2 * syncPoints * threads\<close> when smaller.
  All arithmetic is \<^verbatim>\<open>uint32\<close>; \<open>threads\<close> is the \<^verbatim>\<open>uint8\<close> argument, widened by
  \<^verbatim>\<open>uint32(threads)\<close>.
\<close>

definition effectiveMemory :: "u32 \<Rightarrow> byte \<Rightarrow> u32" where
  "effectiveMemory memory threads =
     (let m = memory div (syncPoints * ucast threads) * (syncPoints * ucast threads)
      in if m < 2 * syncPoints * ucast threads then 2 * syncPoints * ucast threads else m)"

section \<open>Byte order and the hash primitive\<close>

text \<open>\<^verbatim>\<open>binary.LittleEndian.PutUint32\<close> and \<^verbatim>\<open>PutUint64\<close>: the bytes written, lowest first.\<close>

definition le32 :: "u32 \<Rightarrow> byte list" where
  "le32 v = [ucast v, ucast (drop_bit 8 v), ucast (drop_bit 16 v), ucast (drop_bit 24 v)]"

definition le64 :: "u64 \<Rightarrow> byte list" where
  "le64 v = map (\<lambda>k. ucast (drop_bit (8 * k) v)) [0..<8]"

text \<open>\<^verbatim>\<open>binary.LittleEndian.Uint64(b)\<close> reads the first eight bytes of \<open>b\<close>.\<close>

definition Uint64 :: "byte list \<Rightarrow> u64" where
  "Uint64 b = foldr (\<lambda>x acc. ucast x OR push_bit 8 acc) (take 8 b) 0"

text \<open>\<^verbatim>\<open>PutUint32(buf[pos:], v)\<close> on a buffer that has the four bytes.\<close>

definition putUint32 :: "byte list \<Rightarrow> nat \<Rightarrow> u32 \<Rightarrow> byte list" where
  "putUint32 buf pos v = take pos buf @ le32 v @ drop (pos + 4) buf"

text \<open>
  \<^verbatim>\<open>blake3Hash(out, in)\<close> of \<^verbatim>\<open>blake3.go\<close>: a new hasher, \<^verbatim>\<open>Write(in)\<close>, and
  \<^verbatim>\<open>Digest().Read(out)\<close>, which fills the \<open>n = len(out)\<close> bytes of \<open>out\<close> with the start of
  the output stream.
\<close>

definition blake3Hash :: "(byte list \<Rightarrow> nat \<Rightarrow> byte) \<Rightarrow> nat \<Rightarrow> byte list \<Rightarrow> byte list" where
  "blake3Hash H n inp = map (H inp) [0..<n]"

section \<open>The initial hash\<close>

text \<open>
  The bytes that \<^verbatim>\<open>initHash\<close> writes to the hasher, in the order of its \<^verbatim>\<open>Write\<close> calls.
  \<^verbatim>\<open>uint32(len(x))\<close> truncates the length and \<^verbatim>\<open>uint32(mode)\<close> the mode.
\<close>

definition initHashParams :: "u32 \<Rightarrow> u32 \<Rightarrow> u32 \<Rightarrow> u32 \<Rightarrow> int \<Rightarrow> byte list" where
  "initHashParams time memory threads keyLen mode =
     le32 threads @ le32 keyLen @ le32 memory @ le32 time @ le32 Version
       @ le32 (word_of_int mode)"

definition initHashInput ::
  "byte list \<Rightarrow> byte list \<Rightarrow> byte list \<Rightarrow> byte list \<Rightarrow> u32 \<Rightarrow> u32 \<Rightarrow> u32 \<Rightarrow> u32 \<Rightarrow> int
     \<Rightarrow> byte list" where
  "initHashInput password salt key data time memory threads keyLen mode =
     initHashParams time memory threads keyLen mode
       @ le32 (of_nat (length password)) @ password
       @ le32 (of_nat (length salt)) @ salt
       @ le32 (of_nat (length key)) @ key
       @ le32 (of_nat (length data)) @ data"

text \<open>
  \<^verbatim>\<open>initHash\<close> returns the 72-byte array \<open>h0\<close>. \<^verbatim>\<open>b3.Sum(h0[:0])\<close> appends 32 bytes in
  place, then \<^verbatim>\<open>b3.Digest().Read(h0[:64])\<close> overwrites bytes 0 to 63 with the output
  stream; bytes 64 to 71 keep their zero value.
\<close>

definition initHash ::
  "(byte list \<Rightarrow> nat \<Rightarrow> byte) \<Rightarrow> byte list \<Rightarrow> byte list \<Rightarrow> byte list \<Rightarrow> byte list
     \<Rightarrow> u32 \<Rightarrow> u32 \<Rightarrow> u32 \<Rightarrow> u32 \<Rightarrow> int \<Rightarrow> byte list" where
  "initHash H password salt key data time memory threads keyLen mode =
     blake3Hash H 64 (initHashInput password salt key data time memory threads keyLen mode)
       @ replicate 8 0"

section \<open>The compression function\<close>

text \<open>
  Modelled from the spec: \<^verbatim>\<open>processBlock\<close> and \<^verbatim>\<open>processBlockXOR\<close> are called by
  \<^verbatim>\<open>argon3.go\<close> and defined in a file that is not among the sources. Section 4.5 of the
  specification gives \<open>G(X, Y)\<close> as \<open>Z = X xor Y\<close>, a fixed permutation of \<open>Z\<close> (rows, then
  diagonals) and the result \<open>Z' xor X xor Y\<close>. The permutation is not defined there, so it
  is the parameter \<open>P\<close>. \<^verbatim>\<open>processBlock(out, in1, in2)\<close> stores \<open>G(in1, in2)\<close> in \<open>out\<close>;
  \<^verbatim>\<open>processBlockXOR(out, in1, in2)\<close> XORs it into \<open>out\<close>. Both return the new \<open>out\<close>.
\<close>

definition compressG :: "(block \<Rightarrow> block) \<Rightarrow> block \<Rightarrow> block \<Rightarrow> nat \<Rightarrow> u64" where
  "compressG P in1 in2 i =
     (let t = P (map (\<lambda>k. in1 ! k XOR in2 ! k) [0..<blockLength])
      in in1 ! i XOR in2 ! i XOR t ! i)"

definition processBlock :: "(block \<Rightarrow> block) \<Rightarrow> block \<Rightarrow> block \<Rightarrow> block" where
  "processBlock P in1 in2 = map (compressG P in1 in2) [0..<blockLength]"

definition processBlockXOR :: "(block \<Rightarrow> block) \<Rightarrow> block \<Rightarrow> block \<Rightarrow> block \<Rightarrow> block" where
  "processBlockXOR P out in1 in2 =
     map (\<lambda>i. out ! i XOR compressG P in1 in2 i) [0..<blockLength]"

section \<open>Filling the first two blocks of every lane\<close>

text \<open>
  The body of the lane loop of \<^verbatim>\<open>initBlocks\<close>. \<open>h0\<close> is written through the pointer, so it
  is part of the state with the matrix \<open>B\<close>. \<^verbatim>\<open>B[j+0]\<close> and \<^verbatim>\<open>B[j+1]\<close> are bounds-checked.
\<close>

definition blockOfBytes :: "byte list \<Rightarrow> block" where
  "blockOfBytes block0 = map (\<lambda>i. Uint64 (drop (i * 8) block0)) [0..<blockLength]"

definition initLane ::
  "(byte list \<Rightarrow> nat \<Rightarrow> byte) \<Rightarrow> u32 \<Rightarrow> u32 \<Rightarrow> u32 \<Rightarrow> byte list \<times> block list
     \<Rightarrow> error + (byte list \<times> block list)" where
  "initLane H memory threads lane st =
     (case st of (h0, B) \<Rightarrow>
        let j = lane * (memory div threads);
            h1 = putUint32 h0 (64 + 4) lane;
            h2 = putUint32 h1 64 0
        in if \<not> unat (j + 0) < length B then Inl IndexOutOfRange
           else
             let B1 = B[unat (j + 0) := blockOfBytes (blake3Hash H 1024 h2)];
                 h3 = putUint32 h2 64 1
             in if \<not> unat (j + 1) < length B1 then Inl IndexOutOfRange
                else Inr (h3, B1[unat (j + 1) := blockOfBytes (blake3Hash H 1024 h3)]))"

text \<open>
  \<^verbatim>\<open>make([]block, memory)\<close> is a zeroed matrix of \<open>memory\<close> blocks. \<^verbatim>\<open>memory / threads\<close> is
  evaluated in the loop body only, where \<open>lane < threads\<close> and so \<open>threads\<close> is not zero.
\<close>

definition initBlocks ::
  "(byte list \<Rightarrow> nat \<Rightarrow> byte) \<Rightarrow> byte list \<Rightarrow> u32 \<Rightarrow> u32 \<Rightarrow> error + block list" where
  "initBlocks H h0 memory threads =
     map_sum id snd
       (forLoop 0 threads (initLane H memory threads)
          (h0, replicate (unat memory) zeroBlock))"

section \<open>Reference block index\<close>

text \<open>Lines 294--296 of \<^verbatim>\<open>phi\<close>: the value of \<open>p\<close>.\<close>

definition phiP :: "u64 \<Rightarrow> u64 \<Rightarrow> u64" where
  "phiP rand m =
     (let p = rand AND 0xFFFFFFFF;
          p = drop_bit 32 (p * p)
      in drop_bit 32 (p * m))"

definition phi :: "u64 \<Rightarrow> u64 \<Rightarrow> u64 \<Rightarrow> u32 \<Rightarrow> u32 \<Rightarrow> error + u32" where
  "phi rand m s lane lanes =
     (let p = phiP rand m
      in if lanes = 0 then Inl DivideByZero
         else Inr (lane * lanes + ucast ((s + m - (p + 1)) mod ucast lanes)))"

text \<open>
  Lines 273--289 of \<^verbatim>\<open>indexAlpha\<close>: the reference lane, the window size \<open>m\<close> and the window
  start \<open>s\<close> handed to \<^verbatim>\<open>phi\<close>, with the successive assignments of the source. The
  source's \<^verbatim>\<open>slice\<close> is written \<open>slc\<close> throughout.
\<close>

definition alphaWindow ::
  "u64 \<Rightarrow> u32 \<Rightarrow> u32 \<Rightarrow> u32 \<Rightarrow> u32 \<Rightarrow> u32 \<Rightarrow> u32 \<Rightarrow> u32 \<times> u32 \<times> u32" where
  "alphaWindow rand segments threads n slc lane index =
     (let refLane = ucast (drop_bit 32 rand) mod threads;
          refLane = (if n = 0 \<and> slc = 0 then lane else refLane);
          m = 3 * segments;
          s = ((slc + 1) mod syncPoints) * segments;
          m = (if lane = refLane then m + index else m);
          (m, s) = (if n = 0
                    then (let m = slc * segments
                          in if slc = 0 \<or> lane = refLane then m + index else m, 0)
                    else (m, s));
          m = (if index = 0 \<or> lane = refLane then m - 1 else m)
      in (refLane, m, s))"

definition indexAlpha ::
  "u64 \<Rightarrow> u32 \<Rightarrow> u32 \<Rightarrow> u32 \<Rightarrow> u32 \<Rightarrow> u32 \<Rightarrow> u32 \<Rightarrow> u32 \<Rightarrow> error + u32" where
  "indexAlpha rand lanes segments threads n slc lane index =
     (if threads = 0 then Inl DivideByZero
      else case alphaWindow rand segments threads n slc lane index of
             (refLane, m, s) \<Rightarrow> phi rand (ucast m) (ucast s) refLane lanes)"

section \<open>Filling the matrix\<close>

text \<open>The condition under which \<^verbatim>\<open>processSegment\<close> addresses data-independently.\<close>

definition dataIndependent :: "int \<Rightarrow> u32 \<Rightarrow> u32 \<Rightarrow> bool" where
  "dataIndependent mode n slc \<longleftrightarrow>
     mode = argon3i \<or> (mode = argon3id \<and> n = 0 \<and> slc < syncPoints div 2)"

text \<open>
  The variables of \<^verbatim>\<open>processSegment\<close> that its loop changes: the matrix \<open>B\<close>, the address
  block, the counter block \<^verbatim>\<open>in\<close> and \<^verbatim>\<open>offset\<close>.
\<close>

record segment =
  blocks :: "block list"
  addresses :: block
  input :: block
  offset :: u32

text \<open>
  \<^verbatim>\<open>in[6]++\<close> followed by the two \<^verbatim>\<open>processBlock\<close> calls on \<^verbatim>\<open>addresses\<close>: the new address
  block and the new \<^verbatim>\<open>in\<close>.
\<close>

definition nextAddresses :: "(block \<Rightarrow> block) \<Rightarrow> block \<Rightarrow> block \<times> block" where
  "nextAddresses P inb =
     (let in1 = inb[6 := inb ! 6 + 1];
          a1 = processBlock P in1 zeroBlock;
          a2 = processBlock P a1 zeroBlock
      in (a2, in1))"

text \<open>Lines 221--224: the block before \<open>offset\<close>, the last of the lane at its start.\<close>

definition prevOffset :: "u32 \<Rightarrow> u32 \<Rightarrow> u32 \<Rightarrow> u32 \<Rightarrow> u32" where
  "prevOffset lanes slc index offs =
     (let prev = offs - 1
      in if index = 0 \<and> slc = 0 then prev + lanes else prev)"

text \<open>
  Lines 225--234: the value of \<^verbatim>\<open>random\<close>, with the address block and \<^verbatim>\<open>in\<close> after the
  statement. The first branch refreshes the address block every \<^verbatim>\<open>blockLength\<close> indices
  and reads word \<^verbatim>\<open>index % blockLength\<close> of it; the second reads \<^verbatim>\<open>B[prev][0]\<close>, which
  is bounds-checked.
\<close>

definition addressRandom ::
  "(block \<Rightarrow> block) \<Rightarrow> u32 \<Rightarrow> block \<Rightarrow> block \<Rightarrow> error + (u64 \<times> block \<times> block)" where
  "addressRandom P index addrs inb =
     (case (if unat index mod blockLength = 0 then nextAddresses P inb else (addrs, inb)) of
        (addrs1, in1) \<Rightarrow> Inr (addrs1 ! (unat index mod blockLength), addrs1, in1))"

definition previousRandom ::
  "u32 \<Rightarrow> block list \<Rightarrow> block \<Rightarrow> block \<Rightarrow> error + (u64 \<times> block \<times> block)" where
  "previousRandom prev B addrs inb =
     (if unat prev < length B then Inr (B ! unat prev ! 0, addrs, inb)
      else Inl IndexOutOfRange)"

definition segmentRandom ::
  "(block \<Rightarrow> block) \<Rightarrow> int \<Rightarrow> u32 \<Rightarrow> u32 \<Rightarrow> u32 \<Rightarrow> u32 \<Rightarrow> block list \<Rightarrow> block \<Rightarrow> block
     \<Rightarrow> error + (u64 \<times> block \<times> block)" where
  "segmentRandom P mode n slc index prev B addrs inb =
     (if dataIndependent mode n slc then addressRandom P index addrs inb
      else previousRandom prev B addrs inb)"

text \<open>The body of the loop of \<^verbatim>\<open>processSegment\<close> (lines 221--237).\<close>

definition segmentStep ::
  "(block \<Rightarrow> block) \<Rightarrow> int \<Rightarrow> u32 \<Rightarrow> u32 \<Rightarrow> u32 \<Rightarrow> u32 \<Rightarrow> u32 \<Rightarrow> u32 \<Rightarrow> u32 \<Rightarrow> segment
     \<Rightarrow> error + segment" where
  "segmentStep P mode lanes segments threads n slc lane index st =
     (let B = blocks st;
          prev = prevOffset lanes slc index (offset st)
      in case segmentRandom P mode n slc index prev B (addresses st) (input st) of
           Inl e \<Rightarrow> Inl e
         | Inr (random, addrs1, in1) \<Rightarrow>
             (case indexAlpha random lanes segments threads n slc lane index of
                Inl e \<Rightarrow> Inl e
              | Inr newOffset \<Rightarrow>
                  if unat (offset st) < length B \<and> unat prev < length B
                       \<and> unat newOffset < length B
                  then Inr \<lparr>blocks = B[unat (offset st) :=
                                 processBlockXOR P (B ! unat (offset st)) (B ! unat prev)
                                   (B ! unat newOffset)],
                            addresses = addrs1, input = in1, offset = offset st + 1\<rparr>
                  else Inl IndexOutOfRange))"

text \<open>
  Lines 198--216 of \<^verbatim>\<open>processSegment\<close>: the counter block, the first index and the first
  address block.
\<close>

definition segmentInput :: "int \<Rightarrow> u32 \<Rightarrow> u32 \<Rightarrow> u32 \<Rightarrow> u32 \<Rightarrow> u32 \<Rightarrow> block" where
  "segmentInput mode time memory n slc lane =
     (if dataIndependent mode n slc
      then zeroBlock[0 := ucast n, 1 := ucast lane, 2 := ucast slc, 3 := ucast memory,
                     4 := ucast time, 5 := word_of_int mode]
      else zeroBlock)"

definition segmentStart :: "u32 \<Rightarrow> u32 \<Rightarrow> u32" where
  "segmentStart n slc = (if n = 0 \<and> slc = 0 then 2 else 0)"

definition segmentInit ::
  "(block \<Rightarrow> block) \<Rightarrow> int \<Rightarrow> u32 \<Rightarrow> u32 \<Rightarrow> u32 \<Rightarrow> u32 \<Rightarrow> u32 \<Rightarrow> u32 \<Rightarrow> u32
     \<Rightarrow> block list \<Rightarrow> segment" where
  "segmentInit P mode time memory lanes segments n slc lane B =
     (let in0 = segmentInput mode time memory n slc lane;
          index = segmentStart n slc;
          (addrs, in1) = (if n = 0 \<and> slc = 0 \<and> (mode = argon3i \<or> mode = argon3id)
                          then nextAddresses P in0 else (zeroBlock, in0))
      in \<lparr>blocks = B, addresses = addrs, input = in1,
          offset = lane * lanes + slc * segments + index\<rparr>)"

definition processSegment ::
  "(block \<Rightarrow> block) \<Rightarrow> int \<Rightarrow> u32 \<Rightarrow> u32 \<Rightarrow> u32 \<Rightarrow> u32 \<Rightarrow> u32 \<Rightarrow> u32 \<Rightarrow> u32 \<Rightarrow> u32
     \<Rightarrow> block list \<Rightarrow> error + block list" where
  "processSegment P mode time memory threads lanes segments n slc lane B =
     map_sum id blocks
       (forLoop (segmentStart n slc) segments
          (segmentStep P mode lanes segments threads n slc lane)
          (segmentInit P mode time memory lanes segments n slc lane B))"

text \<open>
  \<^verbatim>\<open>processBlocks\<close>: passes, slices and lanes. \<^verbatim>\<open>memory / threads\<close> panics when \<open>threads\<close>
  is zero.
\<close>

definition processBlocks ::
  "(block \<Rightarrow> block) \<Rightarrow> block list \<Rightarrow> u32 \<Rightarrow> u32 \<Rightarrow> u32 \<Rightarrow> int \<Rightarrow> error + block list" where
  "processBlocks P B time memory threads mode =
     (if threads = 0 then Inl DivideByZero
      else
        let lanes = memory div threads;
            segments = lanes div syncPoints
        in forLoop 0 time
             (\<lambda>n. forLoop 0 syncPoints
                (\<lambda>slc. forLoop 0 threads
                   (processSegment P mode time memory threads lanes segments n slc)))
             B)"

section \<open>Extracting the key\<close>

text \<open>
  The body of the lane loop of \<^verbatim>\<open>extractKey\<close>. \<^verbatim>\<open>range\<close> over the array
  \<^verbatim>\<open>B[(lane*lanes)+lanes-1]\<close> iterates over a copy of it.
\<close>

definition xorLastBlock :: "u32 \<Rightarrow> u32 \<Rightarrow> u32 \<Rightarrow> block list \<Rightarrow> error + block list" where
  "xorLastBlock memory lanes lane B =
     (let src = (lane * lanes) + lanes - 1;
          dst = memory - 1
      in if unat src < length B \<and> unat dst < length B
         then Inr (B[unat dst := map (\<lambda>i. B ! unat dst ! i XOR B ! unat src ! i)
                                   [0..<blockLength]])
         else Inl IndexOutOfRange)"

definition extractKey ::
  "(byte list \<Rightarrow> nat \<Rightarrow> byte) \<Rightarrow> block list \<Rightarrow> u32 \<Rightarrow> u32 \<Rightarrow> u32 \<Rightarrow> error + byte list" where
  "extractKey H B memory threads keyLen =
     (if threads = 0 then Inl DivideByZero
      else
        let lanes = memory div threads
        in case forLoop 0 (threads - 1) (xorLastBlock memory lanes) B of
             Inl e \<Rightarrow> Inl e
           | Inr B1 \<Rightarrow>
               if unat (memory - 1) < length B1
               then Inr (blake3Hash H (unat keyLen)
                           (concat (map (\<lambda>i. le64 (B1 ! unat (memory - 1) ! i))
                                      [0..<blockLength])))
               else Inl IndexOutOfRange)"

section \<open>The derivation and its entry points\<close>

text \<open>Line 120 of \<^verbatim>\<open>deriveKey\<close>: \<open>h0\<close>, computed from the arguments as the caller gave them.\<close>

definition deriveKeyH0 ::
  "(byte list \<Rightarrow> nat \<Rightarrow> byte) \<Rightarrow> int \<Rightarrow> byte list \<Rightarrow> byte list \<Rightarrow> byte list \<Rightarrow> byte list
     \<Rightarrow> u32 \<Rightarrow> u32 \<Rightarrow> byte \<Rightarrow> u32 \<Rightarrow> byte list" where
  "deriveKeyH0 H mode password salt secret data time memory threads keyLen =
     initHash H password salt secret data time memory (ucast threads) keyLen mode"

definition deriveKey ::
  "(byte list \<Rightarrow> nat \<Rightarrow> byte) \<Rightarrow> (block \<Rightarrow> block) \<Rightarrow> int \<Rightarrow> byte list \<Rightarrow> byte list
     \<Rightarrow> byte list \<Rightarrow> byte list \<Rightarrow> u32 \<Rightarrow> u32 \<Rightarrow> byte \<Rightarrow> u32 \<Rightarrow> error + byte list" where
  "deriveKey H P mode password salt secret data time memory threads keyLen =
     (if time < 1 then Inl RoundsTooSmall
      else if threads < 1 then Inl ParallelismTooLow
      else
        let h0 = deriveKeyH0 H mode password salt secret data time memory threads keyLen;
            memory = effectiveMemory memory threads
        in case initBlocks H h0 memory (ucast threads) of
             Inl e \<Rightarrow> Inl e
           | Inr B \<Rightarrow>
               (case processBlocks P B time memory (ucast threads) mode of
                  Inl e \<Rightarrow> Inl e
                | Inr B \<Rightarrow> extractKey H B memory (ucast threads) keyLen))"

text \<open>The public functions pass \<^verbatim>\<open>nil\<close> for the secret and the associated data.\<close>

definition Key ::
  "(byte list \<Rightarrow> nat \<Rightarrow> byte) \<Rightarrow> (block \<Rightarrow> block) \<Rightarrow> byte list \<Rightarrow> byte list
     \<Rightarrow> u32 \<Rightarrow> u32 \<Rightarrow> byte \<Rightarrow> u32 \<Rightarrow> error + byte list" where
  "Key H P password salt time memory threads keyLen =
     deriveKey H P argon3i password salt [] [] time memory threads keyLen"

definition IDKey ::
  "(byte list \<Rightarrow> nat \<Rightarrow> byte) \<Rightarrow> (block \<Rightarrow> block) \<Rightarrow> byte list \<Rightarrow> byte list
     \<Rightarrow> u32 \<Rightarrow> u32 \<Rightarrow> byte \<Rightarrow> u32 \<Rightarrow> error + byte list" where
  "IDKey H P password salt time memory threads keyLen =
     deriveKey H P argon3id password salt [] [] time memory threads keyLen"

definition DKey ::
  "(byte list \<Rightarrow> nat \<Rightarrow> byte) \<Rightarrow> (block \<Rightarrow> block) \<Rightarrow> byte list \<Rightarrow> byte list
     \<Rightarrow> u32 \<Rightarrow> u32 \<Rightarrow> byte \<Rightarrow> u32 \<Rightarrow> error + byte list" where
  "DKey H P password salt time memory threads keyLen =
     deriveKey H P argon3d password salt [] [] time memory threads keyLen"

section \<open>Definitions used to state the properties\<close>

text \<open>
  A hash that tells two input streams apart by the low byte of the memory field: every
  output byte is byte 8 of the input.
\<close>

definition byte8Hash :: "byte list \<Rightarrow> nat \<Rightarrow> byte" where
  "byte8Hash inp i = (if 8 < length inp then inp ! 8 else 0)"

text \<open>
  The shape of the matrix after normalisation: \<open>memory\<close> is a multiple of
  \<open>4 * threads\<close> and at least \<open>8 * threads\<close>, so that \<open>lanes = memory / threads\<close> is
  four segments of at least two blocks.
\<close>

definition geometry :: "u32 \<Rightarrow> u32 \<Rightarrow> bool" where
  "geometry memory threads \<longleftrightarrow>
     threads \<noteq> 0 \<and> unat memory mod (4 * unat threads) = 0 \<and> 8 * unat threads \<le> unat memory"

text \<open>
  The reference index in the words of the specification (section 4.4, steps 1 to 4), over
  the natural numbers: nothing wraps here, and \<open>-\<close> is only applied where the text
  subtracts.
\<close>

definition refLaneSpec :: "nat \<Rightarrow> nat \<Rightarrow> nat \<Rightarrow> nat \<Rightarrow> nat \<Rightarrow> nat" where
  "refLaneSpec r threads n slc lane =
     (if n = 0 \<and> slc = 0 then lane else (r div 2 ^ 32) mod threads)"

definition windowSizeSpec :: "nat \<Rightarrow> nat \<Rightarrow> nat \<Rightarrow> nat \<Rightarrow> nat \<Rightarrow> nat \<Rightarrow> nat" where
  "windowSizeSpec segments n slc lane index refLane =
     (let m = (if n = 0
               then slc * segments + (if slc = 0 \<or> refLane = lane then index else 0)
               else 3 * segments + (if refLane = lane then index else 0))
      in if index = 0 \<or> refLane = lane then m - 1 else m)"

definition windowStartSpec :: "nat \<Rightarrow> nat \<Rightarrow> nat \<Rightarrow> nat" where
  "windowStartSpec segments n slc = (if n = 0 then 0 else ((slc + 1) mod 4) * segments)"

definition phiSpec :: "nat \<Rightarrow> nat \<Rightarrow> nat" where
  "phiSpec r m =
     (let p = r mod 2 ^ 32;
          p = (p * p) div 2 ^ 32
      in (p * m) div 2 ^ 32)"

definition indexAlphaSpec ::
  "nat \<Rightarrow> nat \<Rightarrow> nat \<Rightarrow> nat \<Rightarrow> nat \<Rightarrow> nat \<Rightarrow> nat \<Rightarrow> nat \<Rightarrow> nat" where
  "indexAlphaSpec r lanes segments threads n slc lane index =
     (let refLane = refLaneSpec r threads n slc lane;
          m = windowSizeSpec segments n slc lane index refLane;
          s = windowStartSpec segments n slc;
          p = phiSpec r m
      in refLane * lanes + (s + m - (p + 1)) mod lanes)"

text \<open>
  The same facts about \<open>lanes\<close> and \<open>segments\<close> as numbers: a lane is four segments, a
  segment has at least two blocks, and the matrix of \<open>threads * lanes\<close> blocks is indexed
  by a \<^verbatim>\<open>uint32\<close>.
\<close>

definition layout :: "u32 \<Rightarrow> u32 \<Rightarrow> u32 \<Rightarrow> bool" where
  "layout threads lanes segments \<longleftrightarrow>
     unat lanes = 4 * unat segments \<and> 2 \<le> unat segments
       \<and> unat threads * unat lanes < 2 ^ 32"

text \<open>
  Matrix filling in the words of section 4.5 of the specification: the destination block
  is overwritten with the compressed value during pass 0 and XORed with it during later
  passes. Everything else is as in \<open>segmentStep\<close>, \<open>processSegment\<close> and
  \<open>processBlocks\<close>.
\<close>

definition segmentStepSpec ::
  "(block \<Rightarrow> block) \<Rightarrow> int \<Rightarrow> u32 \<Rightarrow> u32 \<Rightarrow> u32 \<Rightarrow> u32 \<Rightarrow> u32 \<Rightarrow> u32 \<Rightarrow> u32 \<Rightarrow> segment
     \<Rightarrow> error + segment" where
  "segmentStepSpec P mode lanes segments threads n slc lane index st =
     (let B = blocks st;
          prev = prevOffset lanes slc index (offset st)
      in case segmentRandom P mode n slc index prev B (addresses st) (input st) of
           Inl e \<Rightarrow> Inl e
         | Inr (random, addrs1, in1) \<Rightarrow>
             (case indexAlpha random lanes segments threads n slc lane index of
                Inl e \<Rightarrow> Inl e
              | Inr newOffset \<Rightarrow>
                  if unat (offset st) < length B \<and> unat prev < length B
                       \<and> unat newOffset < length B
                  then Inr \<lparr>blocks = B[unat (offset st) :=
                                 (if n = 0
                                  then processBlock P (B ! unat prev) (B ! unat newOffset)
                                  else processBlockXOR P (B ! unat (offset st))
                                         (B ! unat prev) (B ! unat newOffset))],
                            addresses = addrs1, input = in1, offset = offset st + 1\<rparr>
                  else Inl IndexOutOfRange))"

definition processSegmentSpec ::
  "(block \<Rightarrow> block) \<Rightarrow> int \<Rightarrow> u32 \<Rightarrow> u32 \<Rightarrow> u32 \<Rightarrow> u32 \<Rightarrow> u32 \<Rightarrow> u32 \<Rightarrow> u32 \<Rightarrow> u32
     \<Rightarrow> block list \<Rightarrow> error + block list" where
  "processSegmentSpec P mode time memory threads lanes segments n slc lane B =
     map_sum id blocks
       (forLoop (segmentStart n slc) segments
          (segmentStepSpec P mode lanes segments threads n slc lane)
          (segmentInit P mode time memory lanes segments n slc lane B))"

definition processBlocksSpec ::
  "(block \<Rightarrow> block) \<Rightarrow> block list \<Rightarrow> u32 \<Rightarrow> u32 \<Rightarrow> u32 \<Rightarrow> int \<Rightarrow> error + block list" where
  "processBlocksSpec P B time memory threads mode =
     (if threads = 0 then Inl DivideByZero
      else
        let lanes = memory div threads;
            segments = lanes div syncPoints
        in forLoop 0 time
             (\<lambda>n. forLoop 0 syncPoints
                (\<lambda>slc. forLoop 0 threads
                   (processSegmentSpec P mode time memory threads lanes segments n slc)))
             B)"

text \<open>
  Key extraction in the words of section 4.7 of the specification: word \<open>i\<close> of the last
  block of the last lane, XORed with word \<open>i\<close> of the last block of every other lane; the
  128 words serialised little-endian and hashed to \<open>keyLen\<close> bytes.
\<close>

definition finalWordSpec :: "block list \<Rightarrow> nat \<Rightarrow> nat \<Rightarrow> nat \<Rightarrow> u64" where
  "finalWordSpec B threads lanes i =
     foldl (XOR) (B ! (threads * lanes - 1) ! i)
       (map (\<lambda>lane. B ! (lane * lanes + lanes - 1) ! i) [0..<threads - 1])"

definition extractKeySpec ::
  "(byte list \<Rightarrow> nat \<Rightarrow> byte) \<Rightarrow> block list \<Rightarrow> nat \<Rightarrow> nat \<Rightarrow> nat \<Rightarrow> byte list" where
  "extractKeySpec H B threads lanes keyLen =
     map (H (concat (map (\<lambda>i. le64 (finalWordSpec B threads lanes i)) [0..<128])))
       [0..<keyLen]"

text \<open>
  The reference index once more in the words of the specification, this time with the
  machine types of the source: \<open>m\<close> and \<open>s\<close> are \<^verbatim>\<open>uint32\<close> values widened to 64 bits for
  the last step.
\<close>

definition indexAlphaWords :: "u64 \<Rightarrow> u32 \<Rightarrow> u32 \<Rightarrow> u32 \<Rightarrow> u32 \<Rightarrow> u32 \<Rightarrow> u32 \<Rightarrow> u32 \<Rightarrow> u32" where
  "indexAlphaWords r lanes segments threads n slc lane index =
     (let refLane = (if n = 0 \<and> slc = 0 then lane else ucast (drop_bit 32 r) mod threads);
          m = (if n = 0
               then slc * segments + (if slc = 0 \<or> refLane = lane then index else 0)
               else 3 * segments + (if refLane = lane then index else 0));
          s = (if n = 0 then 0 else ((slc + 1) mod 4) * segments);
          m = (if index = 0 \<or> refLane = lane then m - 1 else m);
          p = r AND 0xFFFFFFFF;
          p = drop_bit 32 (p * p);
          p = drop_bit 32 (p * ucast m)
      in refLane * lanes + ucast ((ucast s + ucast m - (p + 1)) mod ucast lanes))"

text \<open>The identity in the place of the permutation, for concrete instances.\<close>

definition idPerm :: "block \<Rightarrow> block" where
  "idPerm b = b"

text \<open>
  Blocks not yet written during pass 0. The matrix has \<open>T\<close> lanes of \<open>L\<close> blocks, and
  \<open>front l\<close> is the first position of lane \<open>l\<close> that has not been written: every block
  from there to the end of the lane still has the zero value that \<^verbatim>\<open>make\<close> gave it.
  \<open>frontAt\<close> is that position when pass 0 is about to write index \<open>i\<close> of slice \<open>k\<close> in
  lane \<open>a\<close> (the lanes before \<open>a\<close> have finished the slice, the others have not started
  it).
\<close>

definition unfilled :: "nat \<Rightarrow> nat \<Rightarrow> (nat \<Rightarrow> nat) \<Rightarrow> block list \<Rightarrow> bool" where
  "unfilled T L front B \<longleftrightarrow>
     length B = T * L \<and> (\<forall>l < T. \<forall>j < L. front l \<le> j \<longrightarrow> B ! (l * L + j) = zeroBlock)"

definition frontAt :: "nat \<Rightarrow> nat \<Rightarrow> nat \<Rightarrow> nat \<Rightarrow> nat \<Rightarrow> nat" where
  "frontAt S k a i l =
     (if l < a then (k + 1) * S else if l = a then k * S + i else max 2 (k * S))"

section \<open>The derivation with its effects recorded\<close>

text \<open>
  A pure function does not say in which order the program acts. To state what has happened
  before a panic, the functions of the derivation are written once more (suffix \<open>T\<close>),
  statement by statement as above, each returning the list of the effects it has performed
  in program order up to its return or its panic, together with its result. The results
  are those of the functions above (lemmas \<open>*_erase\<close>).
\<close>

datatype event =
    HashCall nat        \<comment> \<open>a BLAKE3 hasher created, written to and read for that many bytes\<close>
  | AllocBlocks nat     \<comment> \<open>\<^verbatim>\<open>make([]block, n)\<close>\<close>
  | AllocBytes nat      \<comment> \<open>\<^verbatim>\<open>make([]byte, n)\<close>\<close>
  | WriteBlock nat      \<comment> \<open>the words of \<^verbatim>\<open>B[i]\<close> assigned by \<^verbatim>\<open>initBlocks\<close> or \<^verbatim>\<open>extractKey\<close>\<close>
  | Compress            \<comment> \<open>a call of \<^verbatim>\<open>processBlock\<close> (on the address block)\<close>
  | CompressXOR nat     \<comment> \<open>a call of \<^verbatim>\<open>processBlockXOR\<close> with destination \<^verbatim>\<open>B[i]\<close>\<close>

text \<open>
  The \<^verbatim>\<open>for\<close> loop once more, for a body that returns its events with its result: the
  events of the iterations are concatenated, and a panic ends the loop with the events up
  to it.
\<close>

function forLoopT ::
  "u32 \<Rightarrow> u32 \<Rightarrow> (u32 \<Rightarrow> 's \<Rightarrow> event list \<times> (error + 's)) \<Rightarrow> 's
     \<Rightarrow> event list \<times> (error + 's)" where
  "forLoopT i hi body s =
     (if i < hi
      then (case body i s of
              (ev, Inl e) \<Rightarrow> (ev, Inl e)
            | (ev, Inr s') \<Rightarrow> apfst (\<lambda>rest. ev @ rest) (forLoopT (i + 1) hi body s'))
      else ([], Inr s))"
  by pat_completeness auto
termination
proof (relation "measure (\<lambda>(i, hi, body, s). unat hi - unat i)", goal_cases)
  case 1
  show ?case by simp
next
  case (2 i hi)
  then have lt: "unat i < unat hi" by (simp add: word_less_nat_alt)
  have "unat hi < 2 ^ LENGTH(32)" by (rule unsigned_less)
  with lt have "unat i + unat (1 :: u32) < 2 ^ LENGTH(32)" by simp
  then have "unat (i + 1) = unat i + unat (1 :: u32)" by (rule unat_add_lem [THEN iffD1])
  then have "unat (i + 1) = unat i + 1" by simp
  with lt show ?case by simp
qed

declare forLoopT.simps [simp del]

text \<open>
  \<^verbatim>\<open>blake3Hash\<close> and \<^verbatim>\<open>initHash\<close> run one hasher each; \<^verbatim>\<open>initBlocks\<close> allocates the matrix
  first and then, for each lane, hashes and writes block 0 and hashes and writes block 1.
\<close>

definition blake3HashT ::
  "(byte list \<Rightarrow> nat \<Rightarrow> byte) \<Rightarrow> nat \<Rightarrow> byte list \<Rightarrow> event list \<times> byte list" where
  "blake3HashT H n inp = ([HashCall n], blake3Hash H n inp)"

definition initHashT ::
  "(byte list \<Rightarrow> nat \<Rightarrow> byte) \<Rightarrow> byte list \<Rightarrow> byte list \<Rightarrow> byte list \<Rightarrow> byte list
     \<Rightarrow> u32 \<Rightarrow> u32 \<Rightarrow> u32 \<Rightarrow> u32 \<Rightarrow> int \<Rightarrow> event list \<times> byte list" where
  "initHashT H password salt key data time memory threads keyLen mode =
     ([HashCall 64], initHash H password salt key data time memory threads keyLen mode)"

definition initLaneT ::
  "(byte list \<Rightarrow> nat \<Rightarrow> byte) \<Rightarrow> u32 \<Rightarrow> u32 \<Rightarrow> u32 \<Rightarrow> byte list \<times> block list
     \<Rightarrow> event list \<times> (error + (byte list \<times> block list))" where
  "initLaneT H memory threads lane st =
     (case st of (h0, B) \<Rightarrow>
        let j = lane * (memory div threads);
            h1 = putUint32 h0 (64 + 4) lane;
            h2 = putUint32 h1 64 0
        in case blake3HashT H 1024 h2 of (e0, block0) \<Rightarrow>
           if \<not> unat (j + 0) < length B then (e0, Inl IndexOutOfRange)
           else
             let B1 = B[unat (j + 0) := blockOfBytes block0];
                 h3 = putUint32 h2 64 1
             in case blake3HashT H 1024 h3 of (e1, block1) \<Rightarrow>
                if \<not> unat (j + 1) < length B1
                then (e0 @ [WriteBlock (unat (j + 0))] @ e1, Inl IndexOutOfRange)
                else (e0 @ [WriteBlock (unat (j + 0))] @ e1 @ [WriteBlock (unat (j + 1))],
                      Inr (h3, B1[unat (j + 1) := blockOfBytes block1])))"

definition initBlocksT ::
  "(byte list \<Rightarrow> nat \<Rightarrow> byte) \<Rightarrow> byte list \<Rightarrow> u32 \<Rightarrow> u32
     \<Rightarrow> event list \<times> (error + block list)" where
  "initBlocksT H h0 memory threads =
     (case forLoopT 0 threads (initLaneT H memory threads)
             (h0, replicate (unat memory) zeroBlock) of
        (ev, r) \<Rightarrow> (AllocBlocks (unat memory) # ev, map_sum id snd r))"

text \<open>
  \<^verbatim>\<open>processSegment\<close>: two \<^verbatim>\<open>processBlock\<close> calls whenever the address block is refreshed,
  and one \<^verbatim>\<open>processBlockXOR\<close> call at the end of every iteration that does not panic.
\<close>

definition nextAddressesT :: "(block \<Rightarrow> block) \<Rightarrow> block \<Rightarrow> event list \<times> (block \<times> block)" where
  "nextAddressesT P inb = ([Compress, Compress], nextAddresses P inb)"

definition addressRandomT ::
  "(block \<Rightarrow> block) \<Rightarrow> u32 \<Rightarrow> block \<Rightarrow> block
     \<Rightarrow> event list \<times> (error + (u64 \<times> block \<times> block))" where
  "addressRandomT P index addrs inb =
     (case (if unat index mod blockLength = 0 then nextAddressesT P inb
            else ([], (addrs, inb))) of
        (ev, (addrs1, in1)) \<Rightarrow> (ev, Inr (addrs1 ! (unat index mod blockLength), addrs1, in1)))"

definition segmentRandomT ::
  "(block \<Rightarrow> block) \<Rightarrow> int \<Rightarrow> u32 \<Rightarrow> u32 \<Rightarrow> u32 \<Rightarrow> u32 \<Rightarrow> block list \<Rightarrow> block \<Rightarrow> block
     \<Rightarrow> event list \<times> (error + (u64 \<times> block \<times> block))" where
  "segmentRandomT P mode n slc index prev B addrs inb =
     (if dataIndependent mode n slc then addressRandomT P index addrs inb
      else ([], previousRandom prev B addrs inb))"

definition segmentStepT ::
  "(block \<Rightarrow> block) \<Rightarrow> int \<Rightarrow> u32 \<Rightarrow> u32 \<Rightarrow> u32 \<Rightarrow> u32 \<Rightarrow> u32 \<Rightarrow> u32 \<Rightarrow> u32 \<Rightarrow> segment
     \<Rightarrow> event list \<times> (error + segment)" where
  "segmentStepT P mode lanes segments threads n slc lane index st =
     (let B = blocks st;
          prev = prevOffset lanes slc index (offset st)
      in case segmentRandomT P mode n slc index prev B (addresses st) (input st) of
           (ev, Inl e) \<Rightarrow> (ev, Inl e)
         | (ev, Inr (random, addrs1, in1)) \<Rightarrow>
             (case indexAlpha random lanes segments threads n slc lane index of
                Inl e \<Rightarrow> (ev, Inl e)
              | Inr newOffset \<Rightarrow>
                  if unat (offset st) < length B \<and> unat prev < length B
                       \<and> unat newOffset < length B
                  then (ev @ [CompressXOR (unat (offset st))],
                        Inr \<lparr>blocks = B[unat (offset st) :=
                                 processBlockXOR P (B ! unat (offset st)) (B ! unat prev)
                                   (B ! unat newOffset)],
                             addresses = addrs1, input = in1, offset = offset st + 1\<rparr>)
                  else (ev, Inl IndexOutOfRange)))"

definition segmentInitT ::
  "(block \<Rightarrow> block) \<Rightarrow> int \<Rightarrow> u32 \<Rightarrow> u32 \<Rightarrow> u32 \<Rightarrow> u32 \<Rightarrow> u32 \<Rightarrow> u32 \<Rightarrow> u32
     \<Rightarrow> block list \<Rightarrow> event list \<times> segment" where
  "segmentInitT P mode time memory lanes segments n slc lane B =
     (let in0 = segmentInput mode time memory n slc lane;
          index = segmentStart n slc
      in case (if n = 0 \<and> slc = 0 \<and> (mode = argon3i \<or> mode = argon3id)
               then nextAddressesT P in0 else ([], (zeroBlock, in0))) of
           (ev, (addrs, in1)) \<Rightarrow>
             (ev, \<lparr>blocks = B, addresses = addrs, input = in1,
                   offset = lane * lanes + slc * segments + index\<rparr>))"

definition processSegmentT ::
  "(block \<Rightarrow> block) \<Rightarrow> int \<Rightarrow> u32 \<Rightarrow> u32 \<Rightarrow> u32 \<Rightarrow> u32 \<Rightarrow> u32 \<Rightarrow> u32 \<Rightarrow> u32 \<Rightarrow> u32
     \<Rightarrow> block list \<Rightarrow> event list \<times> (error + block list)" where
  "processSegmentT P mode time memory threads lanes segments n slc lane B =
     (case segmentInitT P mode time memory lanes segments n slc lane B of
        (e0, st0) \<Rightarrow>
          (case forLoopT (segmentStart n slc) segments
                  (segmentStepT P mode lanes segments threads n slc lane) st0 of
             (ev, r) \<Rightarrow> (e0 @ ev, map_sum id blocks r)))"

definition processBlocksT ::
  "(block \<Rightarrow> block) \<Rightarrow> block list \<Rightarrow> u32 \<Rightarrow> u32 \<Rightarrow> u32 \<Rightarrow> int
     \<Rightarrow> event list \<times> (error + block list)" where
  "processBlocksT P B time memory threads mode =
     (if threads = 0 then ([], Inl DivideByZero)
      else
        let lanes = memory div threads;
            segments = lanes div syncPoints
        in forLoopT 0 time
             (\<lambda>n. forLoopT 0 syncPoints
                (\<lambda>slc. forLoopT 0 threads
                   (processSegmentT P mode time memory threads lanes segments n slc)))
             B)"

text \<open>
  \<^verbatim>\<open>extractKey\<close> writes \<^verbatim>\<open>B[memory-1]\<close> once per lane but the last, then allocates the key
  and runs one hasher.
\<close>

definition xorLastBlockT ::
  "u32 \<Rightarrow> u32 \<Rightarrow> u32 \<Rightarrow> block list \<Rightarrow> event list \<times> (error + block list)" where
  "xorLastBlockT memory lanes lane B =
     (let src = (lane * lanes) + lanes - 1;
          dst = memory - 1
      in if unat src < length B \<and> unat dst < length B
         then ([WriteBlock (unat dst)],
               Inr (B[unat dst := map (\<lambda>i. B ! unat dst ! i XOR B ! unat src ! i)
                                    [0..<blockLength]]))
         else ([], Inl IndexOutOfRange))"

definition extractKeyT ::
  "(byte list \<Rightarrow> nat \<Rightarrow> byte) \<Rightarrow> block list \<Rightarrow> u32 \<Rightarrow> u32 \<Rightarrow> u32
     \<Rightarrow> event list \<times> (error + byte list)" where
  "extractKeyT H B memory threads keyLen =
     (if threads = 0 then ([], Inl DivideByZero)
      else
        let lanes = memory div threads
        in case forLoopT 0 (threads - 1) (xorLastBlockT memory lanes) B of
             (ev, Inl e) \<Rightarrow> (ev, Inl e)
           | (ev, Inr B1) \<Rightarrow>
               if unat (memory - 1) < length B1
               then (case blake3HashT H (unat keyLen)
                            (concat (map (\<lambda>i. le64 (B1 ! unat (memory - 1) ! i))
                                       [0..<blockLength])) of
                       (eh, key) \<Rightarrow> (ev @ [AllocBytes (unat keyLen)] @ eh, Inr key))
               else (ev, Inl IndexOutOfRange))"

text \<open>\<^verbatim>\<open>deriveKey\<close>: the two parameter checks, then the four calls in the order of the source.\<close>

definition deriveKeyT ::
  "(byte list \<Rightarrow> nat \<Rightarrow> byte) \<Rightarrow> (block \<Rightarrow> block) \<Rightarrow> int \<Rightarrow> byte list \<Rightarrow> byte list
     \<Rightarrow> byte list \<Rightarrow> byte list \<Rightarrow> u32 \<Rightarrow> u32 \<Rightarrow> byte \<Rightarrow> u32
     \<Rightarrow> event list \<times> (error + byte list)" where
  "deriveKeyT H P mode password salt secret data time memory threads keyLen =
     (if time < 1 then ([], Inl RoundsTooSmall)
      else if threads < 1 then ([], Inl ParallelismTooLow)
      else
        case initHashT H password salt secret data time memory (ucast threads) keyLen mode of
          (e0, h0) \<Rightarrow>
            let memory = effectiveMemory memory threads
            in case initBlocksT H h0 memory (ucast threads) of
                 (e1, Inl e) \<Rightarrow> (e0 @ e1, Inl e)
               | (e1, Inr B) \<Rightarrow>
                   (case processBlocksT P B time memory (ucast threads) mode of
                      (e2, Inl e) \<Rightarrow> (e0 @ e1 @ e2, Inl e)
                    | (e2, Inr B) \<Rightarrow>
                        (case extractKeyT H B memory (ucast threads) keyLen of
                           (e3, r) \<Rightarrow> (e0 @ e1 @ e2 @ e3, r))))"

section \<open>Word arithmetic\<close>

lemma threads_bound: "unat (t :: byte) < 256"
  using unsigned_less [of t, where 'a = nat] by simp

lemma unat_ucast_threads: "unat (ucast (t :: byte) :: u32) = unat t"
  using threads_bound [of t] by (simp add: unsigned_ucast_eq take_bit_eq_mod)

lemma unat_4_threads: "unat (syncPoints * ucast (t :: byte) :: u32) = 4 * unat t"
  using threads_bound [of t] by (simp add: syncPoints_def unat_word_ariths unat_ucast_threads)

lemma unat_8_threads: "unat (2 * syncPoints * ucast (t :: byte) :: u32) = 8 * unat t"
  using threads_bound [of t] by (simp add: syncPoints_def unat_word_ariths unat_ucast_threads)

lemma unat_round_down:
  "unat (memory div (syncPoints * ucast (t :: byte)) * (syncPoints * ucast t) :: u32)
     = unat memory div (4 * unat t) * (4 * unat t)"
proof -
  let ?d = "syncPoints * ucast t :: u32"
  have "unat (memory div ?d) * unat ?d \<le> unat memory"
    by (simp add: unat_div)
  also have "\<dots> < 2 ^ LENGTH(32)" by (rule unsigned_less)
  finally have "unat (memory div ?d * ?d) = unat (memory div ?d) * unat ?d"
    by (simp only: unat_mult_lem)
  then show ?thesis by (simp add: unat_div unat_4_threads)
qed

lemma unat_effectiveMemory:
  "unat (effectiveMemory memory t) =
     (if unat memory div (4 * unat t) * (4 * unat t) < 8 * unat t then 8 * unat t
      else unat memory div (4 * unat t) * (4 * unat t))"
  by (simp add: effectiveMemory_def Let_def word_less_nat_alt unat_round_down unat_8_threads)

lemma unat_byte_of: "unat (ucast (drop_bit k (v :: u32)) :: byte) = (unat v div 2 ^ k) mod 256"
proof -
  have "unat (ucast (drop_bit k v) :: byte) = take_bit 8 (drop_bit k (unat v))"
    by (simp add: unsigned_ucast_eq unat_drop_bit_eq)
  then show ?thesis by (simp add: take_bit_eq_mod drop_bit_eq_div)
qed

lemma bytes_of_nat32:
  fixes a :: nat
  assumes "a < 4294967296"
  shows "a mod 256 + 256 * (a div 256 mod 256) + 65536 * (a div 65536 mod 256)
           + 16777216 * (a div 16777216) = a"
proof -
  define b where "b = a div 256"
  define c where "c = b div 256"
  define d where "d = c div 256"
  have a: "a = a mod 256 + 256 * b" by (simp add: b_def)
  have b: "b = b mod 256 + 256 * c" by (simp add: c_def)
  have c: "c = c mod 256 + 256 * d" by (simp add: d_def)
  have c': "c = a div 65536" by (simp add: c_def b_def div_mult2_eq)
  have d': "d = a div 16777216" by (simp add: d_def c_def b_def div_mult2_eq)
  have "a = a mod 256 + 256 * (b mod 256) + 65536 * (c mod 256) + 16777216 * d"
    using a b c by linarith
  then show ?thesis by (simp add: b_def [symmetric] c' [symmetric] d' [symmetric])
qed

lemma le32_little_endian:
  "length (le32 v) = 4 \<and>
   unat (le32 v ! 0) + 256 * unat (le32 v ! 1) + 65536 * unat (le32 v ! 2)
     + 16777216 * unat (le32 v ! 3) = unat v"
proof -
  have b: "unat v < 4294967296" using unsigned_less [of v, where 'a = nat] by simp
  have 0: "unat (ucast v :: byte) = unat v mod 256" using unat_byte_of [of 0 v] by simp
  from b have "unat v div 16777216 < 256" by simp
  then have 3: "unat v div 16777216 mod 256 = unat v div 16777216" by (rule mod_less)
  show ?thesis using bytes_of_nat32 [OF b]
    by (simp add: le32_def unat_byte_of 0 3)
qed

section \<open>Arithmetic of the reference index\<close>

lemma slc_cases: "(slc :: u32) < 4 \<Longrightarrow> slc = 0 \<or> slc = 1 \<or> slc = 2 \<or> slc = 3"
  by (auto simp: word_less_nat_alt word_unat_eq_iff) 

lemma unat_refLane_word:
  "unat (ucast (drop_bit 32 (rand :: u64)) mod threads :: u32) = (unat rand div 2 ^ 32) mod unat threads"
proof -
  have "unat (drop_bit 32 rand) = drop_bit 32 (unat rand)" by (rule unat_drop_bit_eq)
  also have "\<dots> = unat rand div 2 ^ 32" by (rule drop_bit_eq_div)
  finally have d: "unat (drop_bit 32 rand) = unat rand div 2 ^ 32" .
  have "unat rand < 2 ^ 64" using unsigned_less [of rand, where 'a = nat] by simp
  then have "unat rand div 2 ^ 32 < 2 ^ 32" by (simp add: less_mult_imp_div_less)
  then have "unat (ucast (drop_bit 32 rand) :: u32) = unat rand div 2 ^ 32"
    by (simp add: unsigned_ucast_eq take_bit_eq_mod d)
  then show ?thesis by (simp add: unat_mod)
qed

lemma alphaWindow_refLane:
  "fst (alphaWindow rand segments threads n slc lane index) =
     (if n = 0 \<and> slc = 0 then lane else ucast (drop_bit 32 rand) mod threads)"
  by (simp add: alphaWindow_def Let_def split: prod.splits)

lemma alphaWindow_size:
  assumes seg: "4 * unat segments < 2 ^ 32" and "slc < 4" "index < segments"
  assumes first: "n = 0 \<and> slc = 0 \<longrightarrow> 2 \<le> index"
  assumes r: "refLane = fst (alphaWindow rand segments threads n slc lane index)"
  shows "unat (fst (snd (alphaWindow rand segments threads n slc lane index))) =
           windowSizeSpec (unat segments) (unat n) (unat slc) (unat lane) (unat index) (unat refLane)"
proof -
  let ?S = "unat segments" and ?I = "unat index"
  have I: "?I < ?S" using assms(3) by (simp add: word_less_nat_alt)
  have m3: "unat (3 * segments) = 3 * ?S" using seg by (simp add: unat_word_ariths)
  have m2: "unat (2 * segments) = 2 * ?S" using seg by (simp add: unat_word_ariths)
  have add: "\<And>x :: u32. unat x \<le> 3 * ?S \<Longrightarrow> unat (x + index) = unat x + ?I"
    using seg I by (simp add: unat_word_ariths)
  have sub: "\<And>x :: u32. 1 \<le> unat x \<Longrightarrow> unat (x - 1) = unat x - 1"
    by (simp add: unat_sub_if' word_le_nat_alt)
  have n0: "unat n = 0 \<longleftrightarrow> n = 0" by (simp add: unat_eq_0)
  have eq: "\<And>a b :: u32. unat a = unat b \<longleftrightarrow> a = b" by (simp add: word_unat_eq_iff)
  have i0: "?I = 0 \<longleftrightarrow> index = 0" by (simp add: unat_eq_0)
  have i2: "n = 0 \<and> slc = 0 \<Longrightarrow> 2 \<le> ?I" using first by (simp add: word_le_nat_alt)
  have r': "(if n = 0 \<and> slc = 0 then lane else ucast (drop_bit 32 rand) mod threads) = refLane"
    using r by (simp add: alphaWindow_refLane)
  have r'': "refLane = (if n = 0 \<and> slc = 0 then lane else ucast (drop_bit 32 rand) mod threads)"
    using r' by simp
  from slc_cases [OF assms(2)] show ?thesis
  proof (elim disjE)
    assume "slc = 0"
    then show ?thesis using I i2 r''
      by (auto simp: alphaWindow_def Let_def windowSizeSpec_def syncPoints_def n0 eq i0 m3 add sub)
  next
    assume "slc = 1"
    then show ?thesis using I r''
      by (auto simp: alphaWindow_def Let_def windowSizeSpec_def syncPoints_def n0 eq i0 m3 add sub)
  next
    assume "slc = 2"
    then show ?thesis using I r''
      by (auto simp: alphaWindow_def Let_def windowSizeSpec_def syncPoints_def n0 eq i0 m3 m2 add sub)
  next
    assume "slc = 3"
    then show ?thesis using I r''
      by (auto simp: alphaWindow_def Let_def windowSizeSpec_def syncPoints_def n0 eq i0 m3 add sub)
  qed
qed


lemma alphaWindow_start:
  assumes seg: "4 * unat segments < 2 ^ 32" and "slc < 4"
  shows "unat (snd (snd (alphaWindow rand segments threads n slc lane index))) =
           windowStartSpec (unat segments) (unat n) (unat slc)"
proof -
  have m3: "unat (3 * segments) = 3 * unat segments" using seg by (simp add: unat_word_ariths)
  have m2: "unat (2 * segments) = 2 * unat segments" using seg by (simp add: unat_word_ariths)
  have n0: "unat n = 0 \<longleftrightarrow> n = 0" by (simp add: unat_eq_0)
  from slc_cases [OF assms(2)] show ?thesis
    by (elim disjE)
      (simp_all add: alphaWindow_def Let_def windowStartSpec_def syncPoints_def n0 m3 m2
        split: prod.splits)
qed

lemma windowSizeSpec_pos:
  assumes "index < segments" "2 \<le> segments" "n = 0 \<and> slc = 0 \<longrightarrow> 2 \<le> index"
  shows "1 \<le> windowSizeSpec segments n slc lane index refLane"
proof (cases "slc = 0")
  case True
  then show ?thesis using assms by (auto simp: windowSizeSpec_def Let_def)
next
  case False
  then have "segments \<le> slc * segments" by simp
  with assms(2) have "2 \<le> slc * segments" by linarith
  then show ?thesis using False assms by (auto simp: windowSizeSpec_def Let_def)
qed

lemma mult_lt_2p64: "(a::nat) < 2^32 \<Longrightarrow> b < 2^32 \<Longrightarrow> a * b < 2^64"
proof -
  assume a: "a < 2^32" and b: "b < 2^32"
  have "a * b < 2^32 * 2^32"
    by (rule mult_strict_mono) (use a b in simp_all)
  then show ?thesis by simp
qed

lemma unat_mult64: "unat (a::u64) < 2^32 \<Longrightarrow> unat (b::u64) < 2^32 \<Longrightarrow> unat (a * b) = unat a * unat b"
  using mult_lt_2p64[of "unat a" "unat b"] by (simp add: unat_mult_lem[symmetric])

lemma unat_low32: "unat ((rand::u64) AND 0xFFFFFFFF) = unat rand mod 2^32"
proof -
  have "(0xFFFFFFFF::u64) = mask 32" by (simp add: mask_eq_exp_minus_1)
  then have e: "rand AND 0xFFFFFFFF = take_bit 32 rand" by (simp only: take_bit_eq_mask)
  have "unat (take_bit 32 rand) = take_bit 32 (unat rand)" by (rule unsigned_take_bit_eq)
  also have "\<dots> = unat rand mod 2^32" by (rule take_bit_eq_mod)
  finally show ?thesis by (simp only: e)
qed

lemma unat_drop32: "unat (drop_bit 32 (x::u64)) = unat x div 2^32"
proof -
  have "unat (drop_bit 32 x) = drop_bit 32 (unat x)" by (rule unat_drop_bit_eq)
  also have "\<dots> = unat x div 2^32" by (rule drop_bit_eq_div)
  finally show ?thesis .
qed

lemma div_lt_2p32: "(x::nat) < 2^64 \<Longrightarrow> x div 2^32 < 2^32"
  by (simp add: less_mult_imp_div_less)

lemma phiP_nat: 
  assumes "unat m < 2^32"
  shows "unat (phiP rand m) = phiSpec (unat rand) (unat m)"
proof -
  let ?p0 = "rand AND 0xFFFFFFFF"
  have p0: "unat ?p0 < 2^32" unfolding unat_low32 by simp
  have sq: "unat (?p0 * ?p0) = unat ?p0 * unat ?p0" by (rule unat_mult64 [OF p0 p0])
  let ?p1 = "drop_bit 32 (?p0 * ?p0)"
  have p1: "unat ?p1 = unat ?p0 * unat ?p0 div 2^32"
    by (simp only: unat_drop32 sq)
  have "unat ?p0 * unat ?p0 < 2^64" by (rule mult_lt_2p64 [OF p0 p0])
  then have p1b: "unat ?p1 < 2^32" unfolding p1 by (rule div_lt_2p32)
  have "unat (?p1 * m) = unat ?p1 * unat m" by (rule unat_mult64 [OF p1b assms])
  then have "unat (drop_bit 32 (?p1 * m)) = unat ?p1 * unat m div 2^32"
    by (simp only: unat_drop32)
  then show ?thesis unfolding phiP_def phiSpec_def Let_def p1 unat_low32 .
qed

lemma phiSpec_less:
  assumes "0 < m"
  shows "phiSpec r m < m"
proof -
  let ?q = "(r mod 2^32) * (r mod 2^32) div 2^32"
  have "(r mod 2^32) * (r mod 2^32) < 2^64" by (rule mult_lt_2p64) simp_all
  then have "?q < 2^32" by (rule div_lt_2p32)
  then have "?q * m < 2^32 * m" using assms by simp
  then have "?q * m div 2^32 < m"
    by (simp add: less_mult_imp_div_less mult.commute)
  then show ?thesis by (simp add: phiSpec_def Let_def)
qed

lemma unat_ucast_32_64: "unat (ucast (x :: u32) :: u64) = unat x"
  using unsigned_less [of x, where 'a = nat] by (simp add: unsigned_ucast_eq take_bit_eq_mod)

lemma lane_offset_less:
  fixes r T L x :: nat
  assumes "r < T" "x < L"
  shows "r * L + x < T * L"
proof -
  have "r * L + x < r * L + L" using assms(2) by simp
  also have "\<dots> = (r + 1) * L" by simp
  also have "\<dots> \<le> T * L" using assms(1) by (intro mult_le_mono1) simp
  finally show ?thesis .
qed

lemma unat_add32: "unat a + unat b < 2 ^ 32 \<Longrightarrow> unat (a + b :: u32) = unat a + unat b"
  using unat_add_lem [of a b] by simp

lemma unat_mult32: "unat a * unat b < 2 ^ 32 \<Longrightarrow> unat (a * b :: u32) = unat a * unat b"
  using unat_mult_lem [of a b] by simp

lemma phi_nat:
  fixes m s :: u32
  assumes L: "lanes \<noteq> 0" and R: "unat refLane < unat threads"
    and mem: "unat threads * unat lanes < 2 ^ 32" and m: "1 \<le> unat m"
  shows "\<exists>w. phi rand (ucast m) (ucast s) refLane lanes = Inr w
           \<and> unat w = unat refLane * unat lanes
                 + (unat s + unat m - (phiSpec (unat rand) (unat m) + 1)) mod unat lanes"
proof -
  let ?m = "ucast m :: u64" and ?s = "ucast s :: u64"
  let ?p = "phiP rand ?m"
  have mb: "unat ?m < 2 ^ 32" using unsigned_less [of m, where 'a = nat] by (simp add: unat_ucast_32_64)
  have sb: "unat ?s < 2 ^ 32" using unsigned_less [of s, where 'a = nat] by (simp add: unat_ucast_32_64)
  have p: "unat ?p = phiSpec (unat rand) (unat m)" using phiP_nat [OF mb] by (simp add: unat_ucast_32_64)
  have pl: "unat ?p < unat m" unfolding p using m by (intro phiSpec_less) simp
  have Lpos: "0 < unat lanes" using L by (simp add: unat_gt_0)
  have sm: "unat (?s + ?m) = unat s + unat m"
    using mb sb by (simp add: unat_word_ariths unat_ucast_32_64)
  have p1: "unat (?p + 1) = unat ?p + 1"
    using pl mb by (simp add: unat_word_ariths unat_ucast_32_64)
  have le: "?p + 1 \<le> ?s + ?m" using pl by (simp add: word_le_nat_alt sm p1)
  have d: "unat (?s + ?m - (?p + 1)) = unat s + unat m - (unat ?p + 1)"
    using le by (simp add: unat_sub sm p1)
  have md: "unat ((?s + ?m - (?p + 1)) mod ucast lanes) = (unat s + unat m - (unat ?p + 1)) mod unat lanes"
    by (simp add: unat_mod d unat_ucast_32_64)
  have lb: "unat lanes < 2 ^ 32" using unsigned_less [of lanes, where 'a = nat] by simp
  have xb: "(unat s + unat m - (unat ?p + 1)) mod unat lanes < unat lanes" using Lpos by simp
  have x: "unat (ucast ((?s + ?m - (?p + 1)) mod ucast lanes) :: u32) = (unat s + unat m - (unat ?p + 1)) mod unat lanes"
    using xb lb by (simp add: unsigned_ucast_eq take_bit_eq_mod md)
  have "unat refLane * unat lanes + 0 < unat threads * unat lanes"
    by (rule lane_offset_less [OF R Lpos])
  then have rl: "unat refLane * unat lanes < 2 ^ 32"
    using mem by linarith
  then have rl': "unat (refLane * lanes) = unat refLane * unat lanes"
    by (rule unat_mult32)
  have "unat refLane * unat lanes + (unat s + unat m - (unat ?p + 1)) mod unat lanes < 2 ^ 32"
    using lane_offset_less [OF R xb] mem by linarith
  then have "unat (refLane * lanes) + unat (ucast ((?s + ?m - (?p + 1)) mod ucast lanes) :: u32) < 2 ^ 32"
    by (simp only: rl' x)
  then have "unat (refLane * lanes + ucast ((?s + ?m - (?p + 1)) mod ucast lanes))
      = unat (refLane * lanes) + unat (ucast ((?s + ?m - (?p + 1)) mod ucast lanes) :: u32)"
    by (rule unat_add32)
  then have "unat (refLane * lanes + ucast ((?s + ?m - (?p + 1)) mod ucast lanes))
      = unat refLane * unat lanes + (unat s + unat m - (unat ?p + 1)) mod unat lanes"
    by (simp only: rl' x)
  then show ?thesis using L by (simp add: phi_def Let_def p)
qed

section \<open>Loops and positions in the matrix\<close>

lemma geometry_lanes:
  assumes "geometry memory threads"
  shows "unat (memory div threads) = 4 * unat (memory div threads div syncPoints)
         \<and> 2 \<le> unat (memory div threads div syncPoints)
         \<and> unat memory = unat threads * unat (memory div threads)
         \<and> 0 < unat threads"
proof -
  let ?T = "unat threads" and ?M = "unat memory"
  from assms have T: "0 < ?T" and dv: "?M mod (4 * ?T) = 0" and ge: "8 * ?T \<le> ?M"
    by (simp_all add: geometry_def unat_gt_0)
  from dv obtain k where k: "?M = 4 * ?T * k" by (auto simp: mod_eq_0_iff_dvd)
  have L: "?M div ?T = 4 * k" using T by (simp add: k)
  have S: "?M div ?T div 4 = k" by (simp add: L)
  have "8 * ?T \<le> ?T * (4 * k)" using ge by (simp add: k mult.assoc mult.left_commute)
  then have "?T * 8 \<le> ?T * (4 * k)" by (simp add: mult.commute)
  then have k2: "2 \<le> k" using T by simp
  have "unat (memory div threads) = 4 * k" by (simp add: unat_div L)
  moreover have "unat (memory div threads div syncPoints) = k"
    by (simp add: unat_div syncPoints_def S)
  moreover have "?M = ?T * (4 * k)" by (simp add: k)
  ultimately show ?thesis using k2 T by simp
qed

lemma unat_Suc32: "(i :: u32) < hi \<Longrightarrow> unat (i + 1) = unat i + 1"
proof -
  assume "i < hi"
  then have lt: "unat i < unat hi" by (simp add: word_less_nat_alt)
  have "unat hi < 2 ^ 32" using unsigned_less [of hi, where 'a = nat] by simp
  with lt have "unat i + unat (1 :: u32) < 2 ^ 32" by simp
  then have "unat (i + 1) = unat i + unat (1 :: u32)" by (rule unat_add32)
  then show ?thesis by simp
qed

lemma forLoop_rule2:
  assumes "I lo s" "lo \<le> hi"
    and step: "\<And>i s. lo \<le> i \<Longrightarrow> i < hi \<Longrightarrow> I i s
                 \<Longrightarrow> \<exists>s'. f i s = Inr s' \<and> g i s = Inr s' \<and> I (i + 1) s'"
  shows "\<exists>s'. forLoop lo hi f s = Inr s' \<and> forLoop lo hi g s = Inr s' \<and> I hi s'"
  using assms
proof (induction "unat hi - unat lo" arbitrary: lo s rule: less_induct)
  case less
  show ?case
  proof (cases "lo < hi")
    case False
    with less.prems(2) have "lo = hi" by simp
    with less.prems(1) show ?thesis by (simp add: forLoop.simps [of hi hi])
  next
    case True
    from less.prems(3) [OF _ True less.prems(1)]
    obtain s1 where s1: "f lo s = Inr s1" "g lo s = Inr s1" "I (lo + 1) s1" by auto
    have u: "unat (lo + 1) = unat lo + 1" using True by (rule unat_Suc32)
    have lt: "unat lo < unat hi" using True by (simp add: word_less_nat_alt)
    have le: "lo + 1 \<le> hi" using lt by (simp add: word_le_nat_alt u)
    have lo_le: "lo \<le> lo + 1" by (simp add: word_le_nat_alt u)
    have "\<exists>s'. forLoop (lo + 1) hi f s1 = Inr s' \<and> forLoop (lo + 1) hi g s1 = Inr s' \<and> I hi s'"
    proof (rule less.hyps [OF _ s1(3) le])
      show "unat hi - unat (lo + 1) < unat hi - unat lo" using lt by (simp add: u)
    next
      fix i s assume "lo + 1 \<le> i" "i < hi" "I i s"
      with lo_le have "lo \<le> i" by simp
      then show "\<exists>s'. f i s = Inr s' \<and> g i s = Inr s' \<and> I (i + 1) s'"
        using \<open>i < hi\<close> \<open>I i s\<close> by (rule less.prems(3))
    qed
    then show ?thesis using True s1
      by (simp add: forLoop.simps [of lo hi f] forLoop.simps [of lo hi g])
  qed
qed

lemma forLoop_rule:
  assumes "I lo s" "lo \<le> hi"
    and step: "\<And>i s. lo \<le> i \<Longrightarrow> i < hi \<Longrightarrow> I i s \<Longrightarrow> \<exists>s'. f i s = Inr s' \<and> I (i + 1) s'"
  shows "\<exists>s'. forLoop lo hi f s = Inr s' \<and> I hi s'"
  using forLoop_rule2 [of I lo s hi f f] assms by blast


lemma geometry_layout:
  "geometry memory threads \<Longrightarrow> layout threads (memory div threads) (memory div threads div syncPoints)"
  using geometry_lanes [of memory threads] unsigned_less [of memory, where 'a = nat]
  by (simp add: layout_def)

lemma lane_end_le:
  fixes l T L :: nat
  assumes "l < T"
  shows "l * L + L \<le> T * L"
proof -
  have "l * L + L = (l + 1) * L" by simp
  also have "\<dots> \<le> T * L" using assms by (intro mult_le_mono1) simp
  finally show ?thesis .
qed

lemma slice_offset_nat:
  assumes "layout threads lanes segments" "slc < 4" "index \<le> segments"
  shows "unat (slc * segments + index) = unat slc * unat segments + unat index
         \<and> unat slc * unat segments + unat index \<le> unat lanes
         \<and> unat slc * unat segments + unat segments \<le> unat lanes"
proof -
  let ?S = "unat segments"
  have I: "unat index \<le> ?S" using assms(3) by (simp add: word_le_nat_alt)
  have L: "unat lanes = 4 * ?S" using assms(1) by (simp add: layout_def)
  have "unat lanes < 2 ^ 32" using unsigned_less [of lanes, where 'a = nat] by simp
  then have S4: "4 * ?S < 2 ^ 32" by (simp add: L)
  have m3: "unat (3 * segments) = 3 * ?S" using S4 by (simp add: unat_word_ariths)
  have m2: "unat (2 * segments) = 2 * ?S" using S4 by (simp add: unat_word_ariths)
  from slc_cases [OF assms(2)] show ?thesis
  proof (elim disjE)
    assume "slc = 0" then show ?thesis using I L by simp
  next
    assume "slc = 1" then show ?thesis using I L S4 by (simp add: unat_add32)
  next
    assume "slc = 2" then show ?thesis using I L S4 by (simp add: unat_add32 m2)
  next
    assume "slc = 3" then show ?thesis using I L S4 by (simp add: unat_add32 m3)
  qed
qed

lemma offset_nat:
  assumes lay: "layout threads lanes segments" and "lane < threads" "slc < 4" "index \<le> segments"
  shows "unat (lane * lanes + slc * segments + index)
           = unat lane * unat lanes + unat slc * unat segments + unat index
         \<and> unat lane * unat lanes + unat slc * unat segments + unat index
              \<le> unat threads * unat lanes"
proof -
  let ?L = "unat lanes" and ?T = "unat threads" and ?x = "slc * segments + index"
  from slice_offset_nat [OF lay assms(3,4)]
  have x: "unat ?x = unat slc * unat segments + unat index" and xb: "unat ?x \<le> ?L" by simp_all
  have l: "unat lane < ?T" using assms(2) by (simp add: word_less_nat_alt)
  have T: "?T * ?L < 2 ^ 32" using lay unfolding layout_def by blast
  have e: "unat lane * ?L + ?L \<le> ?T * ?L" using l by (rule lane_end_le)
  then have "unat lane * unat lanes < 2 ^ 32" using T by linarith
  then have ll: "unat (lane * lanes) = unat lane * ?L" by (rule unat_mult32)
  have "unat (lane * lanes) + unat ?x < 2 ^ 32" using e xb T unfolding ll by linarith
  then have "unat (lane * lanes + ?x) = unat (lane * lanes) + unat ?x" by (rule unat_add32)
  then have "unat (lane * lanes + ?x) = unat lane * ?L + unat slc * unat segments + unat index"
    by (simp only: ll x add.assoc)
  moreover have "unat lane * ?L + unat slc * unat segments + unat index \<le> ?T * ?L"
    using e xb unfolding x by linarith
  ultimately show ?thesis by (simp only: add.assoc)
qed

lemma offset_less:
  assumes lay: "layout threads lanes segments" and "lane < threads" "slc < 4" "index < segments"
  shows "unat (lane * lanes + slc * segments + index) < unat threads * unat lanes"
proof -
  have le: "index + 1 \<le> segments" using assms(4)
    by (simp add: word_le_nat_alt unat_Suc32 [OF assms(4)] word_less_nat_alt)
  have i: "index \<le> segments" using assms(4) by simp
  from offset_nat [OF lay assms(2,3) le] offset_nat [OF lay assms(2,3) i]
  show ?thesis by (simp add: unat_Suc32 [OF assms(4)])
qed


lemma unat_pred32: "1 \<le> unat (x :: u32) \<Longrightarrow> unat (x - 1) = unat x - 1"
  by (simp add: unat_sub_if' word_le_nat_alt)

lemma prevOffset_nat:
  assumes lay: "layout threads lanes segments" and "lane < threads" "slc < 4" "index < segments"
  shows "unat (prevOffset lanes slc index (lane * lanes + slc * segments + index))
           = (if index = 0 \<and> slc = 0 then unat lane * unat lanes + unat lanes - 1
              else unat lane * unat lanes + unat slc * unat segments + unat index - 1)
         \<and> unat (prevOffset lanes slc index (lane * lanes + slc * segments + index))
              < unat threads * unat lanes"
proof -
  let ?L = "unat lanes" and ?T = "unat threads" and ?S = "unat segments"
  let ?off = "lane * lanes + slc * segments + index"
  have L: "?L = 4 * ?S" and S2: "2 \<le> ?S" and T: "?T * ?L < 2 ^ 32"
    using lay unfolding layout_def by blast+
  have l: "unat lane < ?T" using assms(2) by (simp add: word_less_nat_alt)
  have e: "unat lane * ?L + ?L \<le> ?T * ?L" using l by (rule lane_end_le)
  have i: "index \<le> segments" using assms(4) by simp
  from offset_nat [OF lay assms(2,3) i]
  have off: "unat ?off = unat lane * ?L + unat slc * ?S + unat index" by simp
  have offb: "unat ?off < ?T * ?L" by (rule offset_less [OF lay assms(2,3,4)])
  show ?thesis
  proof (cases "index = 0 \<and> slc = 0")
    case True
    then have o: "?off = lane * lanes" by simp
    have ll: "unat (lane * lanes) = unat lane * ?L" using off True by simp
    have "unat (lane * lanes) + unat lanes < 2 ^ 32" using e T unfolding ll by linarith
    then have s: "unat (lane * lanes + lanes) = unat lane * ?L + ?L"
      unfolding ll [symmetric] by (rule unat_add32)
    have "1 \<le> unat (lane * lanes + lanes)" using L S2 unfolding s by linarith
    then have v: "unat (lane * lanes + lanes - 1) = unat lane * ?L + ?L - 1"
      unfolding s [symmetric] by (rule unat_pred32)
    have pe: "prevOffset lanes slc index ?off = lane * lanes + lanes - 1"
      using True by (simp add: prevOffset_def Let_def)
    have "unat lane * ?L + ?L - 1 < ?T * ?L" using e L S2 by linarith
    then show ?thesis unfolding pe v using True by simp
  next
    case False
    have "1 \<le> unat ?off"
    proof (cases "index = 0")
      case True
      with False have "slc \<noteq> 0" by simp
      then have "1 \<le> unat slc" by (simp add: unat_gt_0 Suc_le_eq)
      then have "?S \<le> unat slc * ?S" by simp
      then show ?thesis using S2 unfolding off by linarith
    next
      case False
      then have "1 \<le> unat index" by (simp add: unat_gt_0 Suc_le_eq)
      then show ?thesis unfolding off by linarith
    qed
    then have p: "unat (?off - 1) = unat ?off - 1" by (rule unat_pred32)
    have b: "unat ?off - 1 < ?T * ?L" using offb by linarith
    have pe: "prevOffset lanes slc index ?off = ?off - 1"
      using False by (auto simp: prevOffset_def Let_def)
    have "unat (prevOffset lanes slc index ?off)
            = unat lane * ?L + unat slc * ?S + unat index - 1
          \<and> unat (prevOffset lanes slc index ?off) < ?T * ?L"
      unfolding pe p using b unfolding off by simp
    then show ?thesis using False by presburger
  qed
qed

lemma indexAlpha_nat:
  assumes lay: "layout threads lanes segments"
    and call: "lane < threads" "slc < 4" "segmentStart n slc \<le> index" "index < segments"
  shows "\<exists>w. indexAlpha rand lanes segments threads n slc lane index = Inr w
           \<and> unat w = indexAlphaSpec (unat rand) (unat lanes) (unat segments) (unat threads)
                         (unat n) (unat slc) (unat lane) (unat index)
           \<and> unat w < unat threads * unat lanes"
proof -
  let ?L = "unat lanes" and ?T = "unat threads" and ?S = "unat segments"
  have L: "?L = 4 * ?S" and S2: "2 \<le> ?S" and T: "?T * ?L < 2 ^ 32"
    using lay unfolding layout_def by blast+
  have "?L < 2 ^ 32" using unsigned_less [of lanes, where 'a = nat] by simp
  then have S4: "4 * ?S < 2 ^ 32" by (simp add: L)
  have thr: "threads \<noteq> 0" using call(1) by (auto simp: word_less_nat_alt)
  have lanes0: "lanes \<noteq> 0" using L S2 by (auto simp: unat_eq_0 [symmetric])
  have first: "n = 0 \<and> slc = 0 \<longrightarrow> 2 \<le> index" using call(3) by (auto simp: segmentStart_def split: if_splits)
  obtain refLane m s where w: "alphaWindow rand segments threads n slc lane index = (refLane, m, s)"
    by (cases "alphaWindow rand segments threads n slc lane index") auto
  have r: "refLane = fst (alphaWindow rand segments threads n slc lane index)" by (simp add: w)
  have n0: "unat n = 0 \<longleftrightarrow> n = 0" and s0: "unat slc = 0 \<longleftrightarrow> slc = 0" by (simp_all add: unat_eq_0)
  have R: "unat refLane = refLaneSpec (unat rand) ?T (unat n) (unat slc) (unat lane)"
    unfolding r alphaWindow_refLane
    by (simp add: refLaneSpec_def n0 s0 unat_refLane_word)
  have Rb: "unat refLane < ?T"
    unfolding r alphaWindow_refLane using call(1) thr
    by (simp add: word_less_nat_alt unat_mod unat_gt_0)
  have m: "unat m = windowSizeSpec ?S (unat n) (unat slc) (unat lane) (unat index) (unat refLane)"
    using alphaWindow_size [OF S4 call(2) call(4) first r] by (simp add: w)
  have s: "unat s = windowStartSpec ?S (unat n) (unat slc)"
    using alphaWindow_start [OF S4 call(2), of rand threads n lane index] by (simp add: w)
  have "unat n = 0 \<and> unat slc = 0 \<longrightarrow> 2 \<le> unat index"
    using first by (simp add: n0 s0 word_le_nat_alt)
  then have mpos: "1 \<le> unat m" unfolding m
    using call(4) S2 by (intro windowSizeSpec_pos) (simp_all add: word_less_nat_alt)
  from phi_nat [OF lanes0 Rb T mpos, of rand s]
  obtain w where w': "phi rand (ucast m) (ucast s) refLane lanes = Inr w"
    and v: "unat w = unat refLane * ?L + (unat s + unat m - (phiSpec (unat rand) (unat m) + 1)) mod ?L"
    by blast
  have "(unat s + unat m - (phiSpec (unat rand) (unat m) + 1)) mod ?L < ?L"
    using L S2 by simp
  then have "unat w < ?T * ?L" unfolding v using Rb by (intro lane_offset_less)
  moreover have "unat w = indexAlphaSpec (unat rand) ?L ?S ?T (unat n) (unat slc) (unat lane) (unat index)"
    by (simp add: indexAlphaSpec_def Let_def v R [symmetric] m [symmetric] s [symmetric])
  moreover have "indexAlpha rand lanes segments threads n slc lane index = Inr w"
    using thr by (simp add: indexAlpha_def w w')
  ultimately show ?thesis by blast
qed

section \<open>No run-time panic\<close>

lemma segmentRandom_ok:
  assumes "unat prev < length B"
  shows "\<exists>random addrs1 in1. segmentRandom P mode n slc index prev B addrs inb = Inr (random, addrs1, in1)"
  using assms
  by (auto simp: segmentRandom_def addressRandom_def previousRandom_def split: prod.splits)

lemma segmentStep_ok:
  assumes lay: "layout threads lanes segments"
    and call: "lane < threads" "slc < 4" "segmentStart n slc \<le> index" "index < segments"
    and len: "length (blocks st) = unat threads * unat lanes"
    and off: "offset st = lane * lanes + slc * segments + index"
  shows "\<exists>random addrs1 in1 w.
           segmentRandom P mode n slc index (prevOffset lanes slc index (offset st))
               (blocks st) (addresses st) (input st) = Inr (random, addrs1, in1)
         \<and> indexAlpha random lanes segments threads n slc lane index = Inr w
         \<and> unat w < unat threads * unat lanes
         \<and> segmentStep P mode lanes segments threads n slc lane index st =
             Inr \<lparr>blocks = (blocks st)[unat (offset st) :=
                      processBlockXOR P (blocks st ! unat (offset st))
                        (blocks st ! unat (prevOffset lanes slc index (offset st)))
                        (blocks st ! unat w)],
                  addresses = addrs1, input = in1, offset = offset st + 1\<rparr>
         \<and> segmentStepSpec P mode lanes segments threads n slc lane index st =
             Inr \<lparr>blocks = (blocks st)[unat (offset st) :=
                      (if n = 0
                       then processBlock P
                              (blocks st ! unat (prevOffset lanes slc index (offset st)))
                              (blocks st ! unat w)
                       else processBlockXOR P (blocks st ! unat (offset st))
                              (blocks st ! unat (prevOffset lanes slc index (offset st)))
                              (blocks st ! unat w))],
                  addresses = addrs1, input = in1, offset = offset st + 1\<rparr>"
proof -
  let ?prev = "prevOffset lanes slc index (offset st)"
  have pb: "unat ?prev < length (blocks st)"
    using prevOffset_nat [OF lay call(1,2,4)] by (simp add: off len)
  have ob: "unat (offset st) < length (blocks st)"
    using offset_less [OF lay call(1,2,4)] by (simp add: off len)
  from segmentRandom_ok [OF pb]
  obtain random addrs1 in1 where
    r: "segmentRandom P mode n slc index ?prev (blocks st) (addresses st) (input st)
          = Inr (random, addrs1, in1)" by blast
  from indexAlpha_nat [OF lay call, of random]
  obtain w where w: "indexAlpha random lanes segments threads n slc lane index = Inr w"
    and wb: "unat w < unat threads * unat lanes" by blast
  have wb': "unat w < length (blocks st)" using wb by (simp add: len)
  have "segmentStep P mode lanes segments threads n slc lane index st =
             Inr \<lparr>blocks = (blocks st)[unat (offset st) :=
                      processBlockXOR P (blocks st ! unat (offset st))
                        (blocks st ! unat ?prev) (blocks st ! unat w)],
                  addresses = addrs1, input = in1, offset = offset st + 1\<rparr>"
    using pb ob wb' by (simp add: segmentStep_def Let_def r w)
  moreover have "segmentStepSpec P mode lanes segments threads n slc lane index st =
             Inr \<lparr>blocks = (blocks st)[unat (offset st) :=
                      (if n = 0
                       then processBlock P (blocks st ! unat ?prev) (blocks st ! unat w)
                       else processBlockXOR P (blocks st ! unat (offset st))
                              (blocks st ! unat ?prev) (blocks st ! unat w))],
                  addresses = addrs1, input = in1, offset = offset st + 1\<rparr>"
    using pb ob wb' by (simp add: segmentStepSpec_def Let_def r w)
  ultimately show ?thesis using r w wb by blast
qed

lemma segmentStart_le:
  assumes "layout threads lanes segments"
  shows "segmentStart n slc \<le> segments"
proof -
  have "2 \<le> unat segments" using assms by (simp add: layout_def)
  then show ?thesis by (simp add: segmentStart_def word_le_nat_alt)
qed

lemma processSegment_ok:
  assumes lay: "layout threads lanes segments"
    and call: "lane < threads" "slc < 4"
    and len: "length B = unat threads * unat lanes"
  shows "\<exists>B'. processSegment P mode time memory threads lanes segments n slc lane B = Inr B'
           \<and> length B' = length B"
proof -
  let ?I = "\<lambda>index (st :: segment). length (blocks st) = unat threads * unat lanes
              \<and> offset st = lane * lanes + slc * segments + index"
  let ?st = "segmentInit P mode time memory lanes segments n slc lane B"
  have init: "?I (segmentStart n slc) ?st"
    by (simp add: segmentInit_def Let_def len split: prod.splits)
  have "\<exists>st'. forLoop (segmentStart n slc) segments
            (segmentStep P mode lanes segments threads n slc lane) ?st = Inr st'
          \<and> ?I segments st'"
  proof (rule forLoop_rule [where I = ?I, OF init segmentStart_le [OF lay]])
    fix index st
    assume i: "segmentStart n slc \<le> index" "index < segments" and inv: "?I index st"
    from segmentStep_ok [OF lay call i, of st P mode] inv
    obtain st' where s: "segmentStep P mode lanes segments threads n slc lane index st = Inr st'"
      and b: "length (blocks st') = length (blocks st)" and o: "offset st' = offset st + 1"
      by auto
    show "\<exists>s'. segmentStep P mode lanes segments threads n slc lane index st = Inr s'
            \<and> ?I (index + 1) s'"
      using s b o inv by (simp add: add.assoc)
  qed
  then show ?thesis by (auto simp: processSegment_def len)
qed


lemma lanes_loop_ok:
  assumes lay: "layout threads lanes segments" and "slc < 4"
    and len: "length B = unat threads * unat lanes"
  shows "\<exists>B'. forLoop 0 threads
                (processSegment P mode time memory threads lanes segments n slc) B = Inr B'
           \<and> length B' = unat threads * unat lanes"
proof (rule forLoop_rule [where I = "\<lambda>_ B. length B = unat threads * unat lanes"])
  show "length B = unat threads * unat lanes" by (rule len)
  show "0 \<le> threads" by simp
next
  fix lane :: u32 and B :: "block list"
  assume "lane < threads" "length B = unat threads * unat lanes"
  with processSegment_ok [OF lay _ assms(2), of lane B P mode time memory n]
  show "\<exists>s'. processSegment P mode time memory threads lanes segments n slc lane B = Inr s'
          \<and> length s' = unat threads * unat lanes"
    by auto
qed

lemma slices_loop_ok:
  assumes lay: "layout threads lanes segments"
    and len: "length B = unat threads * unat lanes"
  shows "\<exists>B'. forLoop 0 syncPoints
                (\<lambda>slc. forLoop 0 threads
                   (processSegment P mode time memory threads lanes segments n slc)) B = Inr B'
           \<and> length B' = unat threads * unat lanes"
proof (rule forLoop_rule [where I = "\<lambda>_ B. length B = unat threads * unat lanes"])
  show "length B = unat threads * unat lanes" by (rule len)
  show "0 \<le> syncPoints" by simp
next
  fix slc :: u32 and B :: "block list"
  assume "slc < syncPoints" "length B = unat threads * unat lanes"
  then show "\<exists>s'. forLoop 0 threads
                (processSegment P mode time memory threads lanes segments n slc) B = Inr s'
          \<and> length s' = unat threads * unat lanes"
    using lanes_loop_ok [OF lay, of slc B P mode time memory n] by (simp add: syncPoints_def)
qed

lemma processBlocks_ok:
  assumes geo: "geometry memory threads" and len: "length B = unat memory"
  shows "\<exists>B'. processBlocks P B time memory threads mode = Inr B' \<and> length B' = unat memory"
proof -
  let ?lanes = "memory div threads"
  let ?segments = "?lanes div syncPoints"
  have lay: "layout threads ?lanes ?segments" using geo by (rule geometry_layout)
  have M: "unat memory = unat threads * unat ?lanes" using geometry_lanes [OF geo] by simp
  have thr: "threads \<noteq> 0" using geo by (simp add: geometry_def)
  have "\<exists>B'. forLoop 0 time
             (\<lambda>n. forLoop 0 syncPoints
                (\<lambda>slc. forLoop 0 threads
                   (processSegment P mode time memory threads ?lanes ?segments n slc))) B = Inr B'
           \<and> length B' = unat threads * unat ?lanes"
  proof (rule forLoop_rule [where I = "\<lambda>_ B. length B = unat threads * unat ?lanes"])
    show "length B = unat threads * unat ?lanes" using len M by simp
    show "0 \<le> time" by simp
  next
    fix n :: u32 and B :: "block list"
    assume "length B = unat threads * unat ?lanes"
    then show "\<exists>s'. forLoop 0 syncPoints
                (\<lambda>slc. forLoop 0 threads
                   (processSegment P mode time memory threads ?lanes ?segments n slc)) B = Inr s'
          \<and> length s' = unat threads * unat ?lanes"
      by (rule slices_loop_ok [OF lay])
  qed
  then show ?thesis using thr M by (simp add: processBlocks_def Let_def)
qed

lemma initLane_ok:
  assumes geo: "geometry memory threads" and "lane < threads" and len: "length B = unat memory"
  shows "\<exists>h1 B'. initLane H memory threads lane (h0, B) = Inr (h1, B') \<and> length B' = unat memory"
proof -
  let ?lanes = "memory div threads"
  let ?L = "unat ?lanes"
  have lay: "layout threads ?lanes (?lanes div syncPoints)" using geo by (rule geometry_layout)
  have M: "unat memory = unat threads * ?L" and L: "?L = 4 * unat (?lanes div syncPoints)"
    and S: "2 \<le> unat (?lanes div syncPoints)"
    using geometry_lanes [OF geo] by simp_all
  have l: "unat lane < unat threads" using assms(2) by (simp add: word_less_nat_alt)
  have e: "unat lane * ?L + ?L \<le> unat threads * ?L" using l by (rule lane_end_le)
  have "unat memory < 2 ^ 32" using unsigned_less [of memory, where 'a = nat] by simp
  then have T: "unat threads * ?L < 2 ^ 32" by (simp add: M)
  have "unat lane * ?L < 2 ^ 32" using e T by linarith
  then have j: "unat (lane * ?lanes) = unat lane * ?L" by (rule unat_mult32)
  have "unat (lane * ?lanes) + unat (1 :: u32) < 2 ^ 32" using e T L S unfolding j by simp
  then have "unat (lane * ?lanes + 1) = unat (lane * ?lanes) + unat (1 :: u32)" by (rule unat_add32)
  then have j1: "unat (lane * ?lanes + 1) = unat lane * ?L + 1" by (simp add: j)
  have b0: "unat (lane * ?lanes) < length B" using e L S unfolding j len M by linarith
  have b1: "unat (lane * ?lanes + 1) < length B" using e L S unfolding j1 len M by linarith
  show ?thesis using b0 b1 by (simp add: initLane_def Let_def len)
qed

lemma initBlocks_ok:
  assumes geo: "geometry memory threads"
  shows "\<exists>B. initBlocks H h0 memory threads = Inr B \<and> length B = unat memory"
proof -
  have thr: "threads \<noteq> 0" using geo by (simp add: geometry_def)
  have "\<exists>st. forLoop 0 threads (initLane H memory threads)
               (h0, replicate (unat memory) zeroBlock) = Inr st
          \<and> length (snd st) = unat memory"
  proof (rule forLoop_rule [where I = "\<lambda>_ st. length (snd st) = unat memory"])
    show "length (snd (h0, replicate (unat memory) zeroBlock)) = unat memory" by simp
    show "0 \<le> threads" by simp
  next
    fix lane :: u32 and st :: "byte list \<times> block list"
    assume "lane < threads" "length (snd st) = unat memory"
    then show "\<exists>s'. initLane H memory threads lane st = Inr s' \<and> length (snd s') = unat memory"
      using initLane_ok [OF geo, of lane "snd st" H "fst st"] by auto
  qed
  then show ?thesis using thr by (auto simp: initBlocks_def)
qed

lemma lastBlock_nat:
  assumes lay: "layout threads lanes segments" and "lane < threads"
  shows "unat (lane * lanes + lanes - 1) = unat lane * unat lanes + unat lanes - 1"
proof -
  have z: "(0 :: u32) < 4" by simp
  have "(0 :: u32) < segments" using lay by (simp add: layout_def word_less_nat_alt)
  from prevOffset_nat [OF lay assms(2) z this]
  have h: "unat (lane * lanes - 1 + lanes) = unat lane * unat lanes + unat lanes - 1"
    by (simp add: prevOffset_def Let_def)
  have e: "lane * lanes + lanes - 1 = lane * lanes - 1 + lanes" by simp
  show ?thesis unfolding e by (rule h)
qed

lemma xorLoop_value:
  assumes geo: "geometry memory threads" and len: "length B = unat memory"
  shows "\<exists>B1. forLoop 0 (threads - 1) (xorLastBlock memory (memory div threads)) B = Inr B1
           \<and> length B1 = unat memory
           \<and> (\<forall>i < blockLength. B1 ! (unat memory - 1) ! i
                  = finalWordSpec B (unat threads) (unat (memory div threads)) i)"
proof -
  let ?lanes = "memory div threads"
  let ?L = "unat ?lanes" and ?T = "unat threads" and ?M = "unat memory"
  have lay: "layout threads ?lanes (?lanes div syncPoints)" using geo by (rule geometry_layout)
  have M: "?M = ?T * ?L" and L: "?L = 4 * unat (?lanes div syncPoints)"
    and S: "2 \<le> unat (?lanes div syncPoints)" and T: "0 < ?T"
    using geometry_lanes [OF geo] by simp_all
  have Mpos: "1 \<le> ?M" using T L S unfolding M by (simp add: Suc_le_eq)
  have dst: "unat (memory - 1) = ?M - 1" using Mpos by (rule unat_pred32)
  have T1: "unat (threads - 1) = ?T - 1" using T by (intro unat_pred32) simp
  let ?w = "\<lambda>k i. foldl (XOR) (B ! (?M - 1) ! i)
                (map (\<lambda>lane. B ! (lane * ?L + ?L - 1) ! i) [0..<k])"
  let ?I = "\<lambda>lane B1. length B1 = ?M \<and> (\<forall>j < ?M - 1. B1 ! j = B ! j)
               \<and> (\<forall>i < blockLength. B1 ! (?M - 1) ! i = ?w (unat lane) i)"
  have "\<exists>B1. forLoop 0 (threads - 1) (xorLastBlock memory ?lanes) B = Inr B1 \<and> ?I (threads - 1) B1"
  proof (rule forLoop_rule [where I = ?I])
    show "?I 0 B" by (simp add: len)
    show "0 \<le> threads - 1" by simp
  next
    fix lane :: u32 and B1 :: "block list"
    assume lt: "lane < threads - 1" and inv: "?I lane B1"
    have l: "unat lane < ?T - 1" using lt by (simp add: word_less_nat_alt T1)
    then have l': "lane < threads" by (simp add: word_less_nat_alt)
    have src: "unat (lane * ?lanes + ?lanes - 1) = unat lane * ?L + ?L - 1"
      by (rule lastBlock_nat [OF lay l'])
    have "unat lane * ?L + ?L \<le> (?T - 1) * ?L" using l by (rule lane_end_le)
    also have "\<dots> = ?M - ?L" by (simp add: M diff_mult_distrib)
    finally have "unat lane * ?L + ?L \<le> ?M - ?L" .
    then have sb: "unat lane * ?L + ?L - 1 < ?M - 1" using L S by linarith
    have u: "unat (lane + 1) = unat lane + 1" using lt by (rule unat_Suc32)
    let ?B2 = "B1[?M - 1 := map (\<lambda>i. B1 ! (?M - 1) ! i XOR B1 ! (unat lane * ?L + ?L - 1) ! i)
                             [0..<blockLength]]"
    have step: "xorLastBlock memory ?lanes lane B1 = Inr ?B2"
      using sb inv Mpos by (simp add: xorLastBlock_def Let_def src dst)
    have "?I (lane + 1) ?B2"
      using inv sb Mpos by (simp add: u)
    with step show "\<exists>s'. xorLastBlock memory ?lanes lane B1 = Inr s' \<and> ?I (lane + 1) s'" by blast
  qed
  then show ?thesis by (auto simp: finalWordSpec_def T1 M)
qed


lemma extractKey_value:
  assumes geo: "geometry memory threads" and len: "length B = unat memory"
  shows "extractKey H B memory threads keyLen =
           Inr (extractKeySpec H B (unat threads) (unat (memory div threads)) (unat keyLen))"
proof -
  from xorLoop_value [OF geo len]
  obtain B1 where l: "forLoop 0 (threads - 1) (xorLastBlock memory (memory div threads)) B = Inr B1"
    and len1: "length B1 = unat memory"
    and w: "\<forall>i < blockLength. B1 ! (unat memory - 1) ! i
              = finalWordSpec B (unat threads) (unat (memory div threads)) i"
    by blast
  have thr: "threads \<noteq> 0" using geo by (simp add: geometry_def)
  have "8 * unat threads \<le> unat memory" and "0 < unat threads"
    using geo by (simp_all add: geometry_def unat_gt_0)
  then have Mpos: "1 \<le> unat memory" by linarith
  have dst: "unat (memory - 1) = unat memory - 1" using Mpos by (rule unat_pred32)
  have e: "map (\<lambda>i. le64 (B1 ! (unat memory - 1) ! i)) [0..<blockLength]
        = map (\<lambda>i. le64 (finalWordSpec B (unat threads) (unat (memory div threads)) i)) [0..<blockLength]"
    using w by simp
  have "extractKey H B memory threads keyLen =
          Inr (blake3Hash H (unat keyLen)
                 (concat (map (\<lambda>i. le64 (B1 ! (unat memory - 1) ! i)) [0..<blockLength])))"
    using thr Mpos by (simp add: extractKey_def Let_def l len1 dst)
  then show ?thesis unfolding e
    by (simp add: extractKeySpec_def blake3Hash_def blockLength_def)
qed

lemma geometry_effectiveMemory:
  assumes "1 \<le> threads"
  shows "geometry (effectiveMemory memory threads) (ucast threads)"
proof -
  have T: "0 < unat threads" using assms by (simp add: word_le_nat_alt Suc_le_eq)
  then have "unat (ucast threads :: u32) \<noteq> 0" by (simp add: unat_ucast_threads)
  then have "(ucast threads :: u32) \<noteq> 0" by (simp add: unat_eq_0)
  then show ?thesis
    by (simp add: geometry_def unat_effectiveMemory unat_ucast_threads)
qed

lemma deriveKey_ok:
  assumes "1 \<le> time" "1 \<le> threads"
  shows "\<exists>key. deriveKey H P mode password salt secret data time memory threads keyLen = Inr key
           \<and> length key = unat keyLen"
proof -
  let ?m = "effectiveMemory memory threads" and ?t = "ucast threads :: u32"
  let ?h0 = "deriveKeyH0 H mode password salt secret data time memory threads keyLen"
  have geo: "geometry ?m ?t" using assms(2) by (rule geometry_effectiveMemory)
  from initBlocks_ok [OF geo, of H ?h0]
  obtain B0 where b0: "initBlocks H ?h0 ?m ?t = Inr B0" "length B0 = unat ?m" by blast
  from processBlocks_ok [OF geo b0(2), of P time mode]
  obtain B1 where b1: "processBlocks P B0 time ?m ?t mode = Inr B1" "length B1 = unat ?m" by blast
  have t: "\<not> time < 1" using assms(1) by (cases "time = 0") simp_all
  have th: "\<not> threads < 1" using assms(2) by (cases "threads = 0") simp_all
  show ?thesis using t th
    by (simp add: deriveKey_def Let_def b0 b1 extractKey_value [OF geo b1(2)] extractKeySpec_def)
qed

lemma indexAlpha_words:
  "indexAlpha rand lanes segments threads n slc lane index =
     (if threads = 0 \<or> lanes = 0 then Inl DivideByZero
      else Inr (indexAlphaWords rand lanes segments threads n slc lane index))"
  by (simp add: indexAlpha_def alphaWindow_def phi_def phiP_def indexAlphaWords_def Let_def
      syncPoints_def)

lemma alphaWindow_nat:
  assumes lay: "layout threads lanes segments"
    and call: "lane < threads" "slc < 4" "segmentStart n slc \<le> index" "index < segments"
    and w: "alphaWindow rand segments threads n slc lane index = (refLane, m, s)"
  shows "unat refLane < unat threads \<and> 1 \<le> unat m"
proof -
  let ?L = "unat lanes" and ?T = "unat threads" and ?S = "unat segments"
  have L: "?L = 4 * ?S" and S2: "2 \<le> ?S"
    using lay unfolding layout_def by blast+
  have "?L < 2 ^ 32" using unsigned_less [of lanes, where 'a = nat] by simp
  then have S4: "4 * ?S < 2 ^ 32" by (simp add: L)
  have thr: "threads \<noteq> 0" using call(1) by (auto simp: word_less_nat_alt)
  have first: "n = 0 \<and> slc = 0 \<longrightarrow> 2 \<le> index"
    using call(3) by (auto simp: segmentStart_def split: if_splits)
  have r: "refLane = fst (alphaWindow rand segments threads n slc lane index)" by (simp add: w)
  have n0: "unat n = 0 \<longleftrightarrow> n = 0" and s0: "unat slc = 0 \<longleftrightarrow> slc = 0" by (simp_all add: unat_eq_0)
  have Rb: "unat refLane < ?T"
    unfolding r alphaWindow_refLane using call(1) thr
    by (simp add: word_less_nat_alt unat_mod unat_gt_0)
  have m: "unat m = windowSizeSpec ?S (unat n) (unat slc) (unat lane) (unat index) (unat refLane)"
    using alphaWindow_size [OF S4 call(2) call(4) first r] by (simp add: w)
  have "unat n = 0 \<and> unat slc = 0 \<longrightarrow> 2 \<le> unat index"
    using first by (simp add: n0 s0 word_le_nat_alt)
  then have mpos: "1 \<le> unat m" unfolding m
    using call(4) S2 by (intro windowSizeSpec_pos) (simp_all add: word_less_nat_alt)
  show ?thesis using Rb mpos by simp
qed

lemma phi_range:
  fixes m s :: u32
  assumes L: "lanes \<noteq> 0" and R: "unat refLane < unat threads"
    and mem: "unat threads * unat lanes < 2 ^ 32" and m: "1 \<le> unat m"
  shows "unat (phiP rand (ucast m)) < unat m
         \<and> phiP rand (ucast m) + 1 \<le> (ucast s + ucast m :: u64)
         \<and> unat (ucast s + ucast m - (phiP rand (ucast m) + 1) :: u64)
              = unat s + unat m - (unat (phiP rand (ucast m)) + 1)
         \<and> (\<exists>w. phi rand (ucast m) (ucast s) refLane lanes = Inr w
                \<and> unat refLane * unat lanes \<le> unat w
                \<and> unat w < unat refLane * unat lanes + unat lanes
                \<and> unat w < unat threads * unat lanes)"
proof -
  let ?m = "ucast m :: u64" and ?s = "ucast s :: u64"
  let ?p = "phiP rand ?m"
  have mb: "unat ?m < 2 ^ 32" using unsigned_less [of m, where 'a = nat] by (simp add: unat_ucast_32_64)
  have sb: "unat ?s < 2 ^ 32" using unsigned_less [of s, where 'a = nat] by (simp add: unat_ucast_32_64)
  have p: "unat ?p = phiSpec (unat rand) (unat m)" using phiP_nat [OF mb] by (simp add: unat_ucast_32_64)
  have pl: "unat ?p < unat m" unfolding p using m by (intro phiSpec_less) simp
  have Lpos: "0 < unat lanes" using L by (simp add: unat_gt_0)
  have sm: "unat (?s + ?m) = unat s + unat m"
    using mb sb by (simp add: unat_word_ariths unat_ucast_32_64)
  have p1: "unat (?p + 1) = unat ?p + 1"
    using pl mb by (simp add: unat_word_ariths unat_ucast_32_64)
  have le: "?p + 1 \<le> ?s + ?m" using pl by (simp add: word_le_nat_alt sm p1)
  have d: "unat (?s + ?m - (?p + 1)) = unat s + unat m - (unat ?p + 1)"
    using le by (simp add: unat_sub sm p1)
  from phi_nat [OF L R mem m, of rand s]
  obtain w where w: "phi rand ?m ?s refLane lanes = Inr w"
    and v: "unat w = unat refLane * unat lanes
              + (unat s + unat m - (phiSpec (unat rand) (unat m) + 1)) mod unat lanes" by blast
  have x: "(unat s + unat m - (phiSpec (unat rand) (unat m) + 1)) mod unat lanes < unat lanes"
    using Lpos by simp
  have "unat w < unat threads * unat lanes" unfolding v using R x by (rule lane_offset_less)
  moreover have "unat refLane * unat lanes \<le> unat w" unfolding v by simp
  moreover have "unat w < unat refLane * unat lanes + unat lanes" unfolding v using x by simp
  ultimately show ?thesis using pl le d w by blast
qed

section \<open>Serialisation\<close>

lemma le64_little_endian:
  assumes "k < 8"
  shows "unat (le64 v ! k) = unat v div 256 ^ k mod 256"
proof -
  have "le64 v ! k = ucast (drop_bit (8 * k) v)" using assms by (simp add: le64_def)
  moreover have "unat (ucast (drop_bit (8 * k) v) :: byte) = take_bit 8 (drop_bit (8 * k) (unat v))"
    by (simp add: unsigned_ucast_eq unat_drop_bit_eq)
  moreover have "(2 :: nat) ^ (8 * k) = 256 ^ k" by (simp add: power_mult)
  ultimately show ?thesis by (simp add: take_bit_eq_mod drop_bit_eq_div)
qed

lemma length_serialised: "length (concat (map (\<lambda>i. le64 (f i)) [0..<128])) = 1024"
  by (simp add: length_concat le64_def comp_def sum_list_triv)

section \<open>XOR into a zeroed matrix\<close>

lemma processBlockXOR_zero: "processBlockXOR P zeroBlock in1 in2 = processBlock P in1 in2"
  by (simp add: processBlockXOR_def processBlock_def zeroBlock_def)

lemma lane_pos_inj:
  fixes l l' j j' L :: nat
  assumes "j < L" "j' < L" "l * L + j = l' * L + j'"
  shows "l = l' \<and> j = j'"
proof -
  have "(l * L + j) div L = l" "(l * L + j) mod L = j" using assms(1) by simp_all
  moreover have "(l' * L + j') div L = l'" "(l' * L + j') mod L = j'" using assms(2) by simp_all
  ultimately show ?thesis using assms(3) by metis
qed

lemma unfilled_update:
  assumes u: "unfilled T L f B" and a: "a < T" and q: "q < L"
    and g: "\<And>l j. l < T \<Longrightarrow> j < L \<Longrightarrow> g l \<le> j \<Longrightarrow> f l \<le> j \<and> (l = a \<longrightarrow> j \<noteq> q)"
  shows "unfilled T L g (B[a * L + q := v])"
  unfolding unfilled_def
proof (intro conjI allI impI)
  show "length (B[a * L + q := v]) = T * L" using u by (simp add: unfilled_def)
next
  fix l j assume l: "l < T" and j: "j < L" and gj: "g l \<le> j"
  from g [OF l j gj] have fj: "f l \<le> j" and ne: "l = a \<longrightarrow> j \<noteq> q" by simp_all
  have "l * L + j \<noteq> a * L + q" using lane_pos_inj [OF j q] ne by blast
  then have "B[a * L + q := v] ! (l * L + j) = B ! (l * L + j)" by simp
  also have "\<dots> = zeroBlock" using u l j fj by (simp add: unfilled_def)
  finally show "B[a * L + q := v] ! (l * L + j) = zeroBlock" .
qed

lemma segmentStepSpec_later: "n \<noteq> 0 \<Longrightarrow>
   segmentStepSpec P mode lanes segments threads n slc lane index st
     = segmentStep P mode lanes segments threads n slc lane index st"
  by (simp add: segmentStepSpec_def segmentStep_def Let_def split: sum.splits prod.splits)

lemma segmentStep_first_pass:
  assumes lay: "layout threads lanes segments"
    and call: "lane < threads" "slc < 4" "segmentStart 0 slc \<le> index" "index < segments"
    and off: "offset st = lane * lanes + slc * segments + index"
    and u: "unfilled (unat threads) (unat lanes)
              (frontAt (unat segments) (unat slc) (unat lane) (unat index)) (blocks st)"
  shows "\<exists>st'. segmentStep P mode lanes segments threads 0 slc lane index st = Inr st'
           \<and> segmentStepSpec P mode lanes segments threads 0 slc lane index st = Inr st'
           \<and> offset st' = lane * lanes + slc * segments + (index + 1)
           \<and> unfilled (unat threads) (unat lanes)
                (frontAt (unat segments) (unat slc) (unat lane) (unat (index + 1))) (blocks st')"
proof -
  let ?T = "unat threads" and ?L = "unat lanes" and ?S = "unat segments"
  let ?k = "unat slc" and ?a = "unat lane" and ?i = "unat index"
  let ?prev = "prevOffset lanes slc index (offset st)"
  have len: "length (blocks st) = ?T * ?L" using u by (simp add: unfilled_def)
  have a: "?a < ?T" using call(1) by (simp add: word_less_nat_alt)
  have i: "?i < ?S" using call(4) by (simp add: word_less_nat_alt)
  have le: "index + 1 \<le> segments"
    using call(4) by (simp add: word_le_nat_alt unat_Suc32 [OF call(4)] word_less_nat_alt)
  have u1: "unat (index + 1) = ?i + 1" using call(4) by (rule unat_Suc32)
  from slice_offset_nat [OF lay call(2) le]
  have q: "?k * ?S + ?i < ?L" by (simp add: u1)
  have ile: "index \<le> segments" using call(4) by simp
  have o: "unat (offset st) = ?a * ?L + (?k * ?S + ?i)"
    using offset_nat [OF lay call(1,2) ile] off by simp
  have z: "blocks st ! unat (offset st) = zeroBlock"
    using u a q unfolding o by (simp add: unfilled_def frontAt_def)
  from segmentStep_ok [OF lay call len off, of P mode]
  obtain random addrs1 in1 w where
    "segmentRandom P mode 0 slc index ?prev (blocks st) (addresses st) (input st)
       = Inr (random, addrs1, in1)"
    and "indexAlpha random lanes segments threads 0 slc lane index = Inr w"
    and "unat w < ?T * ?L"
    and s1: "segmentStep P mode lanes segments threads 0 slc lane index st =
           Inr \<lparr>blocks = (blocks st)[unat (offset st) :=
                    processBlockXOR P (blocks st ! unat (offset st))
                      (blocks st ! unat ?prev) (blocks st ! unat w)],
                addresses = addrs1, input = in1, offset = offset st + 1\<rparr>"
    and s2': "segmentStepSpec P mode lanes segments threads 0 slc lane index st =
           Inr \<lparr>blocks = (blocks st)[unat (offset st) :=
                    (if (0 :: u32) = 0
                     then processBlock P (blocks st ! unat ?prev) (blocks st ! unat w)
                     else processBlockXOR P (blocks st ! unat (offset st))
                            (blocks st ! unat ?prev) (blocks st ! unat w))],
                addresses = addrs1, input = in1, offset = offset st + 1\<rparr>"
    by (elim exE conjE) (rule that)
  have s2: "segmentStepSpec P mode lanes segments threads 0 slc lane index st =
           Inr \<lparr>blocks = (blocks st)[unat (offset st) :=
                    processBlock P (blocks st ! unat ?prev) (blocks st ! unat w)],
                addresses = addrs1, input = in1, offset = offset st + 1\<rparr>"
    using s2' by simp
  let ?v = "processBlock P (blocks st ! unat ?prev) (blocks st ! unat w)"
  let ?st' = "\<lparr>blocks = (blocks st)[unat (offset st) := ?v],
               addresses = addrs1, input = in1, offset = offset st + 1\<rparr>"
  have e1: "segmentStep P mode lanes segments threads 0 slc lane index st = Inr ?st'"
    using s1 by (simp add: z processBlockXOR_zero)
  have "unfilled ?T ?L (frontAt ?S ?k ?a (?i + 1)) ((blocks st)[?a * ?L + (?k * ?S + ?i) := ?v])"
  proof (rule unfilled_update [OF u a q])
    fix l j assume "l < ?T" "j < ?L" "frontAt ?S ?k ?a (?i + 1) l \<le> j"
    then show "frontAt ?S ?k ?a ?i l \<le> j \<and> (l = ?a \<longrightarrow> j \<noteq> ?k * ?S + ?i)"
      by (auto simp: frontAt_def split: if_splits)
  qed
  then have "unfilled ?T ?L (frontAt ?S ?k ?a (unat (index + 1))) (blocks ?st')"
    by (simp add: o u1)
  moreover have "offset ?st' = lane * lanes + slc * segments + (index + 1)"
    by (simp add: off add.assoc)
  ultimately show ?thesis using e1 s2 by blast
qed


lemma unfilled_cong:
  assumes "unfilled T L f B" and "\<And>l. l < T \<Longrightarrow> g l = f l"
  shows "unfilled T L g B"
  using assms by (simp add: unfilled_def)

lemma segmentInit_fields:
  "blocks (segmentInit P mode time memory lanes segments n slc lane B) = B"
  "offset (segmentInit P mode time memory lanes segments n slc lane B)
     = lane * lanes + slc * segments + segmentStart n slc"
  by (simp_all add: segmentInit_def Let_def split: prod.splits)

lemma processSegment_first_pass:
  assumes lay: "layout threads lanes segments"
    and call: "lane < threads" "slc < 4"
    and u: "unfilled (unat threads) (unat lanes)
              (frontAt (unat segments) (unat slc) (unat lane) (unat (segmentStart 0 slc))) B"
  shows "\<exists>B'. processSegment P mode time memory threads lanes segments 0 slc lane B = Inr B'
           \<and> processSegmentSpec P mode time memory threads lanes segments 0 slc lane B = Inr B'
           \<and> unfilled (unat threads) (unat lanes)
                (frontAt (unat segments) (unat slc) (unat lane) (unat segments)) B'"
proof -
  let ?I = "\<lambda>index (st :: segment). offset st = lane * lanes + slc * segments + index
              \<and> unfilled (unat threads) (unat lanes)
                   (frontAt (unat segments) (unat slc) (unat lane) (unat index)) (blocks st)"
  let ?st = "segmentInit P mode time memory lanes segments 0 slc lane B"
  have init: "?I (segmentStart 0 slc) ?st"
    using u by (simp add: segmentInit_fields)
  have "\<exists>st'. forLoop (segmentStart 0 slc) segments
            (segmentStep P mode lanes segments threads 0 slc lane) ?st = Inr st'
          \<and> forLoop (segmentStart 0 slc) segments
            (segmentStepSpec P mode lanes segments threads 0 slc lane) ?st = Inr st'
          \<and> ?I segments st'"
  proof (rule forLoop_rule2 [where I = ?I, OF init segmentStart_le [OF lay]])
    fix index st
    assume i: "segmentStart 0 slc \<le> index" "index < segments" and inv: "?I index st"
    from inv have off: "offset st = lane * lanes + slc * segments + index"
      and un: "unfilled (unat threads) (unat lanes)
                   (frontAt (unat segments) (unat slc) (unat lane) (unat index)) (blocks st)"
      by simp_all
    from segmentStep_first_pass [OF lay call i off un, of P mode]
    show "\<exists>s'. segmentStep P mode lanes segments threads 0 slc lane index st = Inr s'
            \<and> segmentStepSpec P mode lanes segments threads 0 slc lane index st = Inr s'
            \<and> ?I (index + 1) s'"
      by blast
  qed
  then show ?thesis by (auto simp: processSegment_def processSegmentSpec_def)
qed

lemma lanes_loop_first_pass:
  assumes lay: "layout threads lanes segments" and slc: "slc < 4"
    and u: "unfilled (unat threads) (unat lanes) (\<lambda>l. max 2 (unat slc * unat segments)) B"
  shows "\<exists>B'. forLoop 0 threads
                (processSegment P mode time memory threads lanes segments 0 slc) B = Inr B'
           \<and> forLoop 0 threads
                (processSegmentSpec P mode time memory threads lanes segments 0 slc) B = Inr B'
           \<and> unfilled (unat threads) (unat lanes)
                (\<lambda>l. max 2 ((unat slc + 1) * unat segments)) B'"
proof -
  let ?T = "unat threads" and ?L = "unat lanes" and ?S = "unat segments" and ?k = "unat slc"
  have S2: "2 \<le> ?S" using lay unfolding layout_def by blast
  let ?I = "\<lambda>lane B. unfilled ?T ?L
               (\<lambda>l. if l < unat lane then (?k + 1) * ?S else max 2 (?k * ?S)) B"
  have start: "unat (segmentStart 0 slc) = (if ?k = 0 then 2 else 0)"
    by (simp add: segmentStart_def unat_eq_0)
  have kS: "?k \<noteq> 0 \<Longrightarrow> 2 \<le> ?k * ?S"
  proof -
    assume "?k \<noteq> 0"
    then have "?S \<le> ?k * ?S" by simp
    with S2 show ?thesis by linarith
  qed
  have "\<exists>B'. forLoop 0 threads
                (processSegment P mode time memory threads lanes segments 0 slc) B = Inr B'
           \<and> forLoop 0 threads
                (processSegmentSpec P mode time memory threads lanes segments 0 slc) B = Inr B'
           \<and> ?I threads B'"
  proof (rule forLoop_rule2 [where I = ?I])
    show "?I 0 B" using u by simp
    show "0 \<le> threads" by simp
  next
    fix lane :: u32 and B1 :: "block list"
    assume lt: "lane < threads" and inv: "?I lane B1"
    have u1: "unat (lane + 1) = unat lane + 1" using lt by (rule unat_Suc32)
    have "unfilled ?T ?L (frontAt ?S ?k (unat lane) (unat (segmentStart 0 slc))) B1"
      by (rule unfilled_cong [OF inv]) (use kS in \<open>auto simp: frontAt_def start max_def\<close>)
    from processSegment_first_pass [OF lay lt slc this, of P mode time memory]
    obtain B2 where
      a: "processSegment P mode time memory threads lanes segments 0 slc lane B1 = Inr B2"
      and b: "processSegmentSpec P mode time memory threads lanes segments 0 slc lane B1 = Inr B2"
      and c: "unfilled ?T ?L (frontAt ?S ?k (unat lane) ?S) B2" by blast
    have "?I (lane + 1) B2"
      by (rule unfilled_cong [OF c]) (auto simp: frontAt_def u1)
    with a b show "\<exists>s'. processSegment P mode time memory threads lanes segments 0 slc lane B1 = Inr s'
        \<and> processSegmentSpec P mode time memory threads lanes segments 0 slc lane B1 = Inr s'
        \<and> ?I (lane + 1) s'" by blast
  qed
  then obtain B' where
    a: "forLoop 0 threads (processSegment P mode time memory threads lanes segments 0 slc) B = Inr B'"
    and b: "forLoop 0 threads (processSegmentSpec P mode time memory threads lanes segments 0 slc) B = Inr B'"
    and c: "?I threads B'" by blast
  have "2 \<le> (?k + 1) * ?S" using S2 by simp
  then have "unfilled ?T ?L (\<lambda>l. max 2 ((?k + 1) * ?S)) B'"
    by (intro unfilled_cong [OF c]) (simp add: max_def)
  with a b show ?thesis by blast
qed


lemma slices_loop_first_pass:
  assumes lay: "layout threads lanes segments"
    and u: "unfilled (unat threads) (unat lanes) (\<lambda>l. 2) B"
  shows "\<exists>B'. forLoop 0 syncPoints
                (\<lambda>slc. forLoop 0 threads
                   (processSegment P mode time memory threads lanes segments 0 slc)) B = Inr B'
           \<and> forLoop 0 syncPoints
                (\<lambda>slc. forLoop 0 threads
                   (processSegmentSpec P mode time memory threads lanes segments 0 slc)) B = Inr B'
           \<and> length B' = unat threads * unat lanes"
proof -
  let ?T = "unat threads" and ?L = "unat lanes" and ?S = "unat segments"
  let ?I = "\<lambda>slc B. unfilled ?T ?L (\<lambda>l. max 2 (unat slc * ?S)) B"
  have "\<exists>B'. forLoop 0 syncPoints
                (\<lambda>slc. forLoop 0 threads
                   (processSegment P mode time memory threads lanes segments 0 slc)) B = Inr B'
           \<and> forLoop 0 syncPoints
                (\<lambda>slc. forLoop 0 threads
                   (processSegmentSpec P mode time memory threads lanes segments 0 slc)) B = Inr B'
           \<and> ?I syncPoints B'"
  proof (rule forLoop_rule2 [where I = ?I])
    show "?I 0 B" using u by simp
    show "0 \<le> syncPoints" by simp
  next
    fix slc :: u32 and B1 :: "block list"
    assume lt: "slc < syncPoints" and inv: "?I slc B1"
    have slc: "slc < 4" using lt by (simp add: syncPoints_def)
    have u1: "unat (slc + 1) = unat slc + 1" using lt by (rule unat_Suc32)
    from lanes_loop_first_pass [OF lay slc inv, of P mode time memory]
    show "\<exists>s'. forLoop 0 threads
                  (processSegment P mode time memory threads lanes segments 0 slc) B1 = Inr s'
            \<and> forLoop 0 threads
                  (processSegmentSpec P mode time memory threads lanes segments 0 slc) B1 = Inr s'
            \<and> ?I (slc + 1) s'"
      by (simp add: u1)
  qed
  then show ?thesis by (auto simp: unfilled_def)
qed

lemma processSegmentSpec_later:
  "n \<noteq> 0 \<Longrightarrow> processSegmentSpec P mode time memory threads lanes segments n slc
     = processSegment P mode time memory threads lanes segments n slc"
proof -
  assume n: "n \<noteq> 0"
  have "segmentStepSpec P mode lanes segments threads n slc lane
          = segmentStep P mode lanes segments threads n slc lane" for lane
    by (intro ext) (simp add: segmentStepSpec_later [OF n])
  then show ?thesis by (intro ext) (simp add: processSegmentSpec_def processSegment_def)
qed

lemma processBlocks_equiv:
  assumes geo: "geometry memory threads"
    and u: "unfilled (unat threads) (unat (memory div threads)) (\<lambda>l. 2) B"
  shows "\<exists>B'. processBlocks P B time memory threads mode = Inr B'
           \<and> processBlocksSpec P B time memory threads mode = Inr B'"
proof -
  let ?lanes = "memory div threads"
  let ?segments = "?lanes div syncPoints"
  let ?T = "unat threads" and ?L = "unat ?lanes"
  have lay: "layout threads ?lanes ?segments" using geo by (rule geometry_layout)
  have thr: "threads \<noteq> 0" using geo by (simp add: geometry_def)
  let ?I = "\<lambda>n B. length B = ?T * ?L \<and> (n = (0 :: u32) \<longrightarrow> unfilled ?T ?L (\<lambda>l. 2) B)"
  have "\<exists>B'. forLoop 0 time
             (\<lambda>n. forLoop 0 syncPoints
                (\<lambda>slc. forLoop 0 threads
                   (processSegment P mode time memory threads ?lanes ?segments n slc))) B = Inr B'
           \<and> forLoop 0 time
             (\<lambda>n. forLoop 0 syncPoints
                (\<lambda>slc. forLoop 0 threads
                   (processSegmentSpec P mode time memory threads ?lanes ?segments n slc))) B = Inr B'
           \<and> ?I time B'"
  proof (rule forLoop_rule2 [where I = ?I])
    show "?I 0 B" using u by (simp add: unfilled_def)
    show "0 \<le> time" by simp
  next
    fix n :: u32 and B1 :: "block list"
    assume lt: "n < time" and inv: "?I n B1"
    have "unat (n + 1) = unat n + 1" using lt by (rule unat_Suc32)
    then have n1: "n + 1 \<noteq> 0" by (auto simp: unat_eq_0 [symmetric])
    show "\<exists>s'. forLoop 0 syncPoints
                (\<lambda>slc. forLoop 0 threads
                   (processSegment P mode time memory threads ?lanes ?segments n slc)) B1 = Inr s'
            \<and> forLoop 0 syncPoints
                (\<lambda>slc. forLoop 0 threads
                   (processSegmentSpec P mode time memory threads ?lanes ?segments n slc)) B1 = Inr s'
            \<and> ?I (n + 1) s'"
    proof (cases "n = 0")
      case True
      with inv have "unfilled ?T ?L (\<lambda>l. 2) B1" by simp
      from slices_loop_first_pass [OF lay this, of P mode time memory]
      show ?thesis using True n1 by simp
    next
      case False
      from inv have len: "length B1 = ?T * ?L" by simp
      from slices_loop_ok [OF lay len, of P mode time memory n]
      show ?thesis using n1 by (simp add: processSegmentSpec_later [OF False])
    qed
  qed
  then show ?thesis using thr by (auto simp: processBlocks_def processBlocksSpec_def Let_def)
qed

lemma initLane_unfilled:
  assumes geo: "geometry memory threads" and "lane < threads"
    and u: "unfilled (unat threads) (unat (memory div threads)) (\<lambda>l. 2) B"
  shows "\<exists>h1 B'. initLane H memory threads lane (h0, B) = Inr (h1, B')
           \<and> unfilled (unat threads) (unat (memory div threads)) (\<lambda>l. 2) B'"
proof -
  let ?lanes = "memory div threads"
  let ?L = "unat ?lanes" and ?T = "unat threads"
  have lay: "layout threads ?lanes (?lanes div syncPoints)" using geo by (rule geometry_layout)
  have M: "unat memory = ?T * ?L" and L: "?L = 4 * unat (?lanes div syncPoints)"
    and S: "2 \<le> unat (?lanes div syncPoints)"
    using geometry_lanes [OF geo] by simp_all
  have len: "length B = ?T * ?L" using u by (simp add: unfilled_def)
  have l: "unat lane < ?T" using assms(2) by (simp add: word_less_nat_alt)
  have e: "unat lane * ?L + ?L \<le> ?T * ?L" using l by (rule lane_end_le)
  have "unat memory < 2 ^ 32" using unsigned_less [of memory, where 'a = nat] by simp
  then have T: "?T * ?L < 2 ^ 32" by (simp add: M)
  have "unat lane * ?L < 2 ^ 32" using e T by linarith
  then have j: "unat (lane * ?lanes) = unat lane * ?L" by (rule unat_mult32)
  have "unat (lane * ?lanes) + unat (1 :: u32) < 2 ^ 32" using e T L S unfolding j by simp
  then have "unat (lane * ?lanes + 1) = unat (lane * ?lanes) + unat (1 :: u32)" by (rule unat_add32)
  then have j1: "unat (lane * ?lanes + 1) = unat lane * ?L + 1" by (simp add: j)
  have b0: "unat (lane * ?lanes) < length B" using e L S unfolding j len by linarith
  have b1: "unat (lane * ?lanes + 1) < length B" using e L S unfolding j1 len by linarith
  have q0: "0 < ?L" and q1: "1 < ?L" using L S by simp_all
  let ?h2 = "putUint32 (putUint32 h0 (64 + 4) lane) 64 0"
  let ?v0 = "blockOfBytes (blake3Hash H 1024 ?h2)"
  let ?h3 = "putUint32 ?h2 64 1"
  let ?v1 = "blockOfBytes (blake3Hash H 1024 ?h3)"
  have r: "initLane H memory threads lane (h0, B)
             = Inr (?h3, B[unat lane * ?L + 0 := ?v0, unat lane * ?L + 1 := ?v1])"
    using b0 b1 by (simp add: initLane_def Let_def j j1)
  have "unfilled ?T ?L (\<lambda>l. 2) (B[unat lane * ?L + 0 := ?v0])"
    by (rule unfilled_update [OF u l q0]) simp
  then have "unfilled ?T ?L (\<lambda>l. 2) (B[unat lane * ?L + 0 := ?v0, unat lane * ?L + 1 := ?v1])"
    by (rule unfilled_update [OF _ l q1]) simp
  with r show ?thesis by blast
qed

lemma initBlocks_unfilled:
  assumes geo: "geometry memory threads"
  shows "\<exists>B. initBlocks H h0 memory threads = Inr B
           \<and> unfilled (unat threads) (unat (memory div threads)) (\<lambda>l. 2) B"
proof -
  let ?T = "unat threads" and ?L = "unat (memory div threads)"
  have thr: "threads \<noteq> 0" using geo by (simp add: geometry_def)
  have M: "unat memory = ?T * ?L" using geometry_lanes [OF geo] by simp
  have "\<exists>st. forLoop 0 threads (initLane H memory threads)
               (h0, replicate (unat memory) zeroBlock) = Inr st
          \<and> unfilled ?T ?L (\<lambda>l. 2) (snd st)"
  proof (rule forLoop_rule [where I = "\<lambda>_ st. unfilled ?T ?L (\<lambda>l. 2) (snd st)"])
    have "l * ?L + j < ?T * ?L" if "l < ?T" "j < ?L" for l j
      using that by (rule lane_offset_less)
    then show "unfilled ?T ?L (\<lambda>l. 2) (snd (h0, replicate (unat memory) zeroBlock))"
      by (simp add: unfilled_def M)
    show "0 \<le> threads" by simp
  next
    fix lane :: u32 and st :: "byte list \<times> block list"
    assume "lane < threads" "unfilled ?T ?L (\<lambda>l. 2) (snd st)"
    then show "\<exists>s'. initLane H memory threads lane st = Inr s' \<and> unfilled ?T ?L (\<lambda>l. 2) (snd s')"
      using initLane_unfilled [OF geo, of lane "snd st" H "fst st"] by auto
  qed
  then show ?thesis using thr by (auto simp: initBlocks_def)
qed

lemma segmentStepSpec_zero_destination:
  "blocks st ! unat (offset st) = zeroBlock \<Longrightarrow>
   segmentStepSpec P mode lanes segments threads 0 slc lane index st
     = segmentStep P mode lanes segments threads 0 slc lane index st"
  by (simp add: segmentStepSpec_def segmentStep_def Let_def processBlockXOR_zero
      split: sum.splits prod.splits)

section \<open>Erasing the record of effects\<close>

lemma forLoopT_erase:
  "snd (forLoopT lo hi body s) = forLoop lo hi (\<lambda>i s. snd (body i s)) s"
proof (induction lo hi body s rule: forLoopT.induct)
  case (1 i hi body s)
  show ?case
  proof (cases "i < hi")
    case False
    then show ?thesis by (simp add: forLoopT.simps [of i hi] forLoop.simps [of i hi])
  next
    case True
    obtain ev r where b: "body i s = (ev, r)" by (cases "body i s")
    show ?thesis
    proof (cases r)
      case (Inl e)
      then show ?thesis using True b
        by (simp add: forLoopT.simps [of i hi] forLoop.simps [of i hi])
    next
      case (Inr s')
      from "1.IH" [OF True b [symmetric] Inr]
      show ?thesis using True b Inr
        by (simp add: forLoopT.simps [of i hi] forLoop.simps [of i hi])
    qed
  qed
qed


lemma initLaneT_erase: "snd (initLaneT H memory threads lane st) = initLane H memory threads lane st"
  by (simp add: initLaneT_def initLane_def blake3HashT_def Let_def split: prod.splits)

lemma forLoopT_erase_body:
  assumes "\<And>i s. snd (bodyT i s) = body i s"
  shows "snd (forLoopT lo hi bodyT s) = forLoop lo hi body s"
proof -
  have "(\<lambda>i s. snd (bodyT i s)) = body" using assms by (intro ext) simp
  then show ?thesis by (simp add: forLoopT_erase)
qed

lemma initBlocksT_erase: "snd (initBlocksT H h0 memory threads) = initBlocks H h0 memory threads"
proof -
  have "snd (forLoopT 0 threads (initLaneT H memory threads)
               (h0, replicate (unat memory) zeroBlock))
        = forLoop 0 threads (initLane H memory threads) (h0, replicate (unat memory) zeroBlock)"
    by (rule forLoopT_erase_body) (rule initLaneT_erase)
  then show ?thesis
    by (cases "forLoopT 0 threads (initLaneT H memory threads)
                 (h0, replicate (unat memory) zeroBlock)")
      (simp add: initBlocksT_def initBlocks_def)
qed

lemma segmentRandomT_erase:
  "snd (segmentRandomT P mode n slc index prev B addrs inb)
     = segmentRandom P mode n slc index prev B addrs inb"
  by (simp add: segmentRandomT_def segmentRandom_def addressRandomT_def addressRandom_def
      nextAddressesT_def split: prod.splits)

lemma segmentStepT_erase:
  "snd (segmentStepT P mode lanes segments threads n slc lane index st)
     = segmentStep P mode lanes segments threads n slc lane index st"
proof -
  let ?r = "segmentRandomT P mode n slc index (prevOffset lanes slc index (offset st))
              (blocks st) (addresses st) (input st)"
  obtain ev r where e: "?r = (ev, r)" by (cases ?r)
  then have "segmentRandom P mode n slc index (prevOffset lanes slc index (offset st))
              (blocks st) (addresses st) (input st) = r"
    using segmentRandomT_erase [of P mode n slc index "prevOffset lanes slc index (offset st)"
        "blocks st" "addresses st" "input st"] by simp
  then show ?thesis using e
    by (simp add: segmentStepT_def segmentStep_def Let_def split: sum.splits prod.splits)
qed

lemma segmentInitT_erase:
  "snd (segmentInitT P mode time memory lanes segments n slc lane B)
     = segmentInit P mode time memory lanes segments n slc lane B"
  by (auto simp: segmentInitT_def segmentInit_def nextAddressesT_def Let_def split: prod.splits)

lemma processSegmentT_erase:
  "snd (processSegmentT P mode time memory threads lanes segments n slc lane B)
     = processSegment P mode time memory threads lanes segments n slc lane B"
proof -
  obtain e0 st0 where i: "segmentInitT P mode time memory lanes segments n slc lane B = (e0, st0)"
    by (cases "segmentInitT P mode time memory lanes segments n slc lane B")
  then have st0: "segmentInit P mode time memory lanes segments n slc lane B = st0"
    using segmentInitT_erase [of P mode time memory lanes segments n slc lane B] by simp
  have "snd (forLoopT (segmentStart n slc) segments
               (segmentStepT P mode lanes segments threads n slc lane) st0)
        = forLoop (segmentStart n slc) segments
            (segmentStep P mode lanes segments threads n slc lane) st0"
    by (rule forLoopT_erase_body) (rule segmentStepT_erase)
  then show ?thesis
    by (cases "forLoopT (segmentStart n slc) segments
                 (segmentStepT P mode lanes segments threads n slc lane) st0")
      (simp add: processSegmentT_def processSegment_def i st0)
qed

lemma processBlocksT_erase:
  "snd (processBlocksT P B time memory threads mode) = processBlocks P B time memory threads mode"
proof (cases "threads = 0")
  case True
  then show ?thesis by (simp add: processBlocksT_def processBlocks_def)
next
  case False
  let ?lanes = "memory div threads"
  let ?segments = "?lanes div syncPoints"
  have lanes: "snd (forLoopT 0 threads
                 (processSegmentT P mode time memory threads ?lanes ?segments n slc) s)
        = forLoop 0 threads (processSegment P mode time memory threads ?lanes ?segments n slc) s"
    for n slc s
    by (rule forLoopT_erase_body) (rule processSegmentT_erase)
  have slices: "snd (forLoopT 0 syncPoints
                 (\<lambda>slc. forLoopT 0 threads
                    (processSegmentT P mode time memory threads ?lanes ?segments n slc)) s)
        = forLoop 0 syncPoints
            (\<lambda>slc. forLoop 0 threads
               (processSegment P mode time memory threads ?lanes ?segments n slc)) s"
    for n s
    by (rule forLoopT_erase_body) (rule lanes)
  have "snd (forLoopT 0 time
               (\<lambda>n. forLoopT 0 syncPoints
                  (\<lambda>slc. forLoopT 0 threads
                     (processSegmentT P mode time memory threads ?lanes ?segments n slc))) B)
        = forLoop 0 time
            (\<lambda>n. forLoop 0 syncPoints
               (\<lambda>slc. forLoop 0 threads
                  (processSegment P mode time memory threads ?lanes ?segments n slc))) B"
    by (rule forLoopT_erase_body) (rule slices)
  then show ?thesis using False by (simp add: processBlocksT_def processBlocks_def Let_def)
qed

lemma xorLastBlockT_erase:
  "snd (xorLastBlockT memory lanes lane B) = xorLastBlock memory lanes lane B"
  by (simp add: xorLastBlockT_def xorLastBlock_def Let_def)

lemma extractKeyT_erase:
  "snd (extractKeyT H B memory threads keyLen) = extractKey H B memory threads keyLen"
proof (cases "threads = 0")
  case True
  then show ?thesis by (simp add: extractKeyT_def extractKey_def)
next
  case False
  let ?l = "forLoopT 0 (threads - 1) (xorLastBlockT memory (memory div threads)) B"
  obtain ev r where l: "?l = (ev, r)" by (cases ?l)
  have "snd ?l = forLoop 0 (threads - 1) (xorLastBlock memory (memory div threads)) B"
    by (rule forLoopT_erase_body) (rule xorLastBlockT_erase)
  then have "forLoop 0 (threads - 1) (xorLastBlock memory (memory div threads)) B = r"
    using l by simp
  then show ?thesis using False l
    by (simp add: extractKeyT_def extractKey_def Let_def blake3HashT_def split: sum.splits)
qed

lemma deriveKeyT_erase:
  "snd (deriveKeyT H P mode password salt secret data time memory threads keyLen)
     = deriveKey H P mode password salt secret data time memory threads keyLen"
proof -
  let ?h0 = "deriveKeyH0 H mode password salt secret data time memory threads keyLen"
  let ?m = "effectiveMemory memory threads" and ?t = "ucast threads :: u32"
  obtain e1 r1 where b: "initBlocksT H ?h0 ?m ?t = (e1, r1)" by (cases "initBlocksT H ?h0 ?m ?t")
  then have b': "initBlocks H ?h0 ?m ?t = r1" using initBlocksT_erase [of H ?h0 ?m ?t] by simp
  have p: "processBlocks P B time ?m ?t mode = snd (processBlocksT P B time ?m ?t mode)" for B
    by (simp add: processBlocksT_erase)
  have x: "extractKey H B ?m ?t keyLen = snd (extractKeyT H B ?m ?t keyLen)" for B
    by (simp add: extractKeyT_erase)
  show ?thesis
    by (simp add: deriveKeyT_def deriveKey_def initHashT_def deriveKeyH0_def [symmetric] Let_def
        b b' p x split: sum.splits prod.splits)
qed

lemma initBlocksT_head2:
  assumes geo: "geometry memory threads"
  shows "\<exists>ev r. initBlocksT H h0 memory threads
           = (AllocBlocks (unat memory) # HashCall 1024 # WriteBlock 0 # HashCall 1024
                # WriteBlock 1 # ev, r)"
proof -
  have thr: "0 < threads" using geo by (simp add: geometry_def word_neq_0_conv)
  have "8 * unat threads \<le> unat memory" "0 < unat threads"
    using geo by (simp_all add: geometry_def unat_gt_0)
  then have M: "1 < unat memory" by linarith
  let ?B = "replicate (unat memory) zeroBlock"
  obtain st' where l: "initLaneT H memory threads 0 (h0, ?B)
      = ([HashCall 1024, WriteBlock 0, HashCall 1024, WriteBlock 1], Inr st')"
    using M by (simp add: initLaneT_def blake3HashT_def Let_def)
  obtain ev r where f: "forLoopT (0 + 1) threads (initLaneT H memory threads) st' = (ev, r)"
    by (cases "forLoopT (0 + 1) threads (initLaneT H memory threads) st'")
  have "forLoopT 0 threads (initLaneT H memory threads) (h0, ?B)
          = ([HashCall 1024, WriteBlock 0, HashCall 1024, WriteBlock 1] @ ev, r)"
    using thr l f by (simp add: forLoopT.simps [of 0 threads])
  then show ?thesis by (simp add: initBlocksT_def)
qed

lemma deriveKeyT_head:
  assumes "1 \<le> time" "1 \<le> threads"
  shows "\<exists>evs. fst (deriveKeyT H P mode password salt secret data time memory threads keyLen)
           = HashCall 64 # AllocBlocks (unat (effectiveMemory memory threads)) # HashCall 1024
               # WriteBlock 0 # HashCall 1024 # WriteBlock 1 # evs"
proof -
  let ?h0 = "initHash H password salt secret data time memory (ucast threads) keyLen mode"
  let ?m = "effectiveMemory memory threads" and ?t = "ucast threads :: u32"
  have t: "\<not> time < 1" using assms(1) by (cases "time = 0") simp_all
  have th: "\<not> threads < 1" using assms(2) by (cases "threads = 0") simp_all
  have geo: "geometry ?m ?t" using assms(2) by (rule geometry_effectiveMemory)
  from initBlocksT_head2 [OF geo, of H ?h0]
  obtain ev r where b: "initBlocksT H ?h0 ?m ?t
      = (AllocBlocks (unat ?m) # HashCall 1024 # WriteBlock 0 # HashCall 1024 # WriteBlock 1 # ev, r)"
    by blast
  show ?thesis using t th
    by (simp add: deriveKeyT_def initHashT_def Let_def b split: sum.splits prod.splits)
qed

section \<open>Verified properties\<close>

text \<open>
  C2. For every requested memory and every \<open>threads \<ge> 1\<close>, the effective memory of
  \<^verbatim>\<open>deriveKey\<close> is \<open>floor(memory / (4 * threads)) * (4 * threads)\<close>, raised to exactly
  \<open>2 * 4 * threads\<close> when that product is smaller; so it is a multiple of \<open>4 * threads\<close>
  and at least \<open>8 * threads\<close>, and a derivation with any requested memory returns a key
  instead of an error.
\<close>

theorem effectiveMemory_value:
  assumes "1 \<le> threads"
  shows "unat (effectiveMemory memory threads) =
           (if unat memory div (4 * unat threads) * (4 * unat threads) < 2 * 4 * unat threads
            then 2 * 4 * unat threads
            else unat memory div (4 * unat threads) * (4 * unat threads))
         \<and> (4 * unat threads) dvd unat (effectiveMemory memory threads)
         \<and> 8 * unat threads \<le> unat (effectiveMemory memory threads)
         \<and> (1 \<le> time \<longrightarrow>
              (\<exists>key. deriveKey H P mode password salt secret data time memory threads keyLen
                       = Inr key))"
proof -
  have "1 \<le> time \<longrightarrow>
          (\<exists>key. deriveKey H P mode password salt secret data time memory threads keyLen
                   = Inr key)"
    using deriveKey_ok [OF _ assms, of time H P mode password salt secret data memory keyLen]
    by blast
  then show ?thesis by (simp add: unat_effectiveMemory)
qed

theorem effectiveMemory_value_witness:
  "(1 :: byte) \<le> 3 \<and> unat (effectiveMemory 5 3) = 24 \<and> unat (effectiveMemory 100 3) = 96"
  using effectiveMemory_value [of 3 5] effectiveMemory_value [of 3 100] by simp

text \<open>
  C5. In hybrid mode the randomness comes from the address block exactly when \<open>n = 0\<close>
  and the slice is below 2, and from the preceding block otherwise; \<^verbatim>\<open>argon3i\<close> always
  uses the address block and \<^verbatim>\<open>argon3d\<close> always the preceding block.
\<close>

theorem hybrid_addressing_schedule:
  "(dataIndependent argon3id n slc \<longleftrightarrow> n = 0 \<and> slc < 2)
   \<and> dataIndependent argon3i n slc
   \<and> \<not> dataIndependent argon3d n slc
   \<and> segmentRandom P argon3id n slc index prev B addrs inb =
       (if n = 0 \<and> slc < 2 then addressRandom P index addrs inb
        else previousRandom prev B addrs inb)
   \<and> segmentRandom P argon3i n slc index prev B addrs inb = addressRandom P index addrs inb
   \<and> segmentRandom P argon3d n slc index prev B addrs inb = previousRandom prev B addrs inb"
  by (simp add: segmentRandom_def dataIndependent_def argon3id_def argon3i_def argon3d_def
      syncPoints_def)

text \<open>
  C3. \<^verbatim>\<open>indexAlpha\<close> returns \<open>refLane * lanes + ((s + m - (p + 1)) mod lanes)\<close> with
  \<open>refLane\<close>, \<open>m\<close>, \<open>s\<close> and \<open>p\<close> as the specification gives them. First conjunct: for every
  argument, in the machine types of the source (\<open>indexAlphaWords\<close>); the function panics
  exactly when \<open>threads\<close> or \<open>lanes\<close> is zero. Second conjunct: for every position that
  \<^verbatim>\<open>processSegment\<close> visits (a lane, a slice and an index from \<open>segmentStart\<close> up to
  \<open>segments\<close>, on a normalised matrix) the result is the value of the same formula over
  the natural numbers (\<open>indexAlphaSpec\<close>), so no operation wraps and \<open>p\<close> is exact.
\<close>

theorem indexAlpha_value:
  "indexAlpha rand lanes segments threads n slc lane index =
     (if threads = 0 \<or> lanes = 0 then Inl DivideByZero
      else Inr (indexAlphaWords rand lanes segments threads n slc lane index))
   \<and> (geometry memory threads \<and> lanes = memory div threads \<and> segments = lanes div syncPoints
        \<and> lane < threads \<and> slc < syncPoints \<and> segmentStart n slc \<le> index \<and> index < segments
      \<longrightarrow> indexAlpha rand lanes segments threads n slc lane index =
            Inr (indexAlphaWords rand lanes segments threads n slc lane index)
          \<and> unat (indexAlphaWords rand lanes segments threads n slc lane index) =
              indexAlphaSpec (unat rand) (unat lanes) (unat segments) (unat threads)
                (unat n) (unat slc) (unat lane) (unat index))"
proof (intro conjI impI)
  show "indexAlpha rand lanes segments threads n slc lane index =
     (if threads = 0 \<or> lanes = 0 then Inl DivideByZero
      else Inr (indexAlphaWords rand lanes segments threads n slc lane index))"
    by (rule indexAlpha_words)
next
  assume h: "geometry memory threads \<and> lanes = memory div threads \<and> segments = lanes div syncPoints
        \<and> lane < threads \<and> slc < syncPoints \<and> segmentStart n slc \<le> index \<and> index < segments"
  then have lay: "layout threads lanes segments" using geometry_layout [of memory threads] by simp
  from h have call: "lane < threads" "slc < 4" "segmentStart n slc \<le> index" "index < segments"
    by (auto simp: syncPoints_def)
  from indexAlpha_nat [OF lay call, of rand]
  obtain w where w: "indexAlpha rand lanes segments threads n slc lane index = Inr w"
    and v: "unat w = indexAlphaSpec (unat rand) (unat lanes) (unat segments) (unat threads)
                (unat n) (unat slc) (unat lane) (unat index)" by blast
  have "w = indexAlphaWords rand lanes segments threads n slc lane index"
    using w by (simp add: indexAlpha_words split: if_splits)
  with w v show "indexAlpha rand lanes segments threads n slc lane index =
            Inr (indexAlphaWords rand lanes segments threads n slc lane index)"
    and "unat (indexAlphaWords rand lanes segments threads n slc lane index) =
              indexAlphaSpec (unat rand) (unat lanes) (unat segments) (unat threads)
                (unat n) (unat slc) (unat lane) (unat index)" by simp_all
qed

theorem indexAlpha_value_witness:
  "geometry 16 2 \<and> (1 :: u32) < 2 \<and> (2 :: u32) < syncPoints \<and> segmentStart 0 2 \<le> 1 \<and> (1 :: u32) < 2
   \<and> indexAlpha 0x123456789ABCDEF0 8 2 2 0 2 1 1 = Inr 2
   \<and> indexAlphaSpec 0x123456789ABCDEF0 8 2 2 0 2 1 1 = 2"
proof -
  have g: "geometry 16 2" by (simp add: geometry_def)
  have d: "(16 :: u32) div 2 = 8" "(8 :: u32) div syncPoints = 2" by (simp_all add: syncPoints_def)
  have c: "(1 :: u32) < 2" "(2 :: u32) < syncPoints" "segmentStart 0 2 \<le> 1"
    by (simp_all add: syncPoints_def segmentStart_def)
  have v: "indexAlphaSpec 0x123456789ABCDEF0 8 2 2 0 2 1 1 = 2"
    by (simp add: indexAlphaSpec_def refLaneSpec_def windowSizeSpec_def windowStartSpec_def
        phiSpec_def Let_def)
  from indexAlpha_value [of "0x123456789ABCDEF0" 8 2 2 0 2 1 1 16]
  show ?thesis using g d c v by (simp add: word_unat_eq_iff)
qed

text \<open>
  C10. For every call of \<^verbatim>\<open>indexAlpha\<close> that \<^verbatim>\<open>processBlocks\<close> makes on a normalised matrix,
  with \<open>refLane\<close>, \<open>m\<close> and \<open>s\<close> the values handed to \<^verbatim>\<open>phi\<close>: \<open>m\<close> is at least 1,
  \<open>p < m\<close>, the 64-bit subtraction \<open>s + m - (p + 1)\<close> does not underflow, the returned
  index lies in \<open>[refLane * lanes, refLane * lanes + lanes)\<close> and below \<open>memory\<close>, and
  \<^verbatim>\<open>processBlocks\<close> on a matrix of \<open>memory\<close> blocks ends without an index panic.
\<close>

theorem indexAlpha_in_bounds:
  assumes "geometry memory threads" "lanes = memory div threads" "segments = lanes div syncPoints"
    and "lane < threads" "slc < syncPoints" "segmentStart n slc \<le> index" "index < segments"
    and "alphaWindow rand segments threads n slc lane index = (refLane, m, s)"
  shows "1 \<le> unat m
         \<and> unat (phiP rand (ucast m)) < unat m
         \<and> phiP rand (ucast m) + 1 \<le> (ucast s + ucast m :: u64)
         \<and> unat (ucast s + ucast m - (phiP rand (ucast m) + 1) :: u64)
              = unat s + unat m - (unat (phiP rand (ucast m)) + 1)
         \<and> (\<exists>w. indexAlpha rand lanes segments threads n slc lane index = Inr w
                \<and> unat refLane * unat lanes \<le> unat w
                \<and> unat w < unat refLane * unat lanes + unat lanes
                \<and> unat w < unat memory)
         \<and> (\<forall>B. length B = unat memory
                \<longrightarrow> (\<exists>B'. processBlocks P B time memory threads mode = Inr B'))"
proof -
  have lay: "layout threads lanes segments"
    using geometry_layout [OF assms(1)] assms(2,3) by simp
  have call: "lane < threads" "slc < 4" "segmentStart n slc \<le> index" "index < segments"
    using assms(4-7) by (simp_all add: syncPoints_def)
  have M: "unat memory = unat threads * unat lanes"
    using geometry_lanes [OF assms(1)] assms(2) by simp
  have T: "unat threads * unat lanes < 2 ^ 32" using lay unfolding layout_def by blast
  have "unat lanes = 4 * unat segments" "2 \<le> unat segments" using lay unfolding layout_def by blast+
  then have L: "lanes \<noteq> 0" by (auto simp: unat_eq_0 [symmetric])
  have thr: "threads \<noteq> 0" using assms(1) by (simp add: geometry_def)
  from alphaWindow_nat [OF lay call assms(8)]
  have R: "unat refLane < unat threads" and m: "1 \<le> unat m" by simp_all
  have ia: "indexAlpha rand lanes segments threads n slc lane index
              = phi rand (ucast m) (ucast s) refLane lanes"
    using thr by (simp add: indexAlpha_def assms(8))
  have "\<forall>B. length B = unat memory
                \<longrightarrow> (\<exists>B'. processBlocks P B time memory threads mode = Inr B')"
    using processBlocks_ok [OF assms(1)] by blast
  then show ?thesis using phi_range [OF L R T m, of rand s] m unfolding ia M by blast
qed

theorem indexAlpha_in_bounds_witness:
  "geometry 16 2 \<and> alphaWindow 0x123456789ABCDEF0 2 2 0 2 1 1 = (0, 4, 0)
   \<and> phiP 0x123456789ABCDEF0 4 = 1
   \<and> indexAlpha 0x123456789ABCDEF0 8 2 2 0 2 1 1 = Inr 2
   \<and> (\<exists>B'. processBlocks idPerm (replicate 16 zeroBlock) 1 16 2 argon3d = Inr B')"
proof -
  have g: "geometry 16 2" by (simp add: geometry_def)
  have d: "(8 :: u32) = 16 div 2" "(2 :: u32) = 8 div syncPoints" by (simp_all add: syncPoints_def)
  have c: "(1 :: u32) < 2" "(2 :: u32) < syncPoints" "segmentStart 0 2 \<le> 1"
    by (simp_all add: syncPoints_def segmentStart_def)
  have a: "alphaWindow 0x123456789ABCDEF0 2 2 0 2 1 1 = (0, 4, 0)"
    by (simp add: alphaWindow_def Let_def syncPoints_def)
  have p: "phiP 0x123456789ABCDEF0 4 = 1" by (simp add: phiP_def Let_def)
  have i: "indexAlpha 0x123456789ABCDEF0 8 2 2 0 2 1 1 = Inr 2"
    by (simp add: indexAlpha_def a phi_def p)
  from indexAlpha_in_bounds [OF g d c c(1) a, of idPerm 1 argon3d]
  show ?thesis using g a p i by simp
qed

text \<open>
  C1, as amended. The parameter block that \<^verbatim>\<open>initHash\<close> streams into \<open>H\<close> for a derivation
  call is 24 bytes: \<open>threads\<close>, \<open>keyLen\<close>, the memory as the caller requested it (before
  normalisation), \<open>time\<close>, the version 0x13 and the mode, each as four little-endian
  bytes; then password, salt, secret and associated data, each after its four-byte
  little-endian length. The first 64 bytes of the seed are the output of \<open>H\<close> over that
  stream and the last 8 are zero.
\<close>

theorem initHash_stream:
  "deriveKeyH0 H mode password salt secret data time memory threads keyLen =
     map (H (le32 (ucast threads) @ le32 keyLen @ le32 memory @ le32 time @ le32 0x13
               @ le32 (word_of_int mode)
               @ le32 (of_nat (length password)) @ password
               @ le32 (of_nat (length salt)) @ salt
               @ le32 (of_nat (length secret)) @ secret
               @ le32 (of_nat (length data)) @ data))
       [0..<64]
     @ replicate 8 0
   \<and> length (le32 (ucast threads) @ le32 keyLen @ le32 memory @ le32 time @ le32 0x13
               @ le32 (word_of_int mode)) = 24
   \<and> length (le32 v) = 4
   \<and> unat (le32 v ! 0) + 256 * unat (le32 v ! 1) + 65536 * unat (le32 v ! 2)
        + 16777216 * unat (le32 v ! 3) = unat v"
  using le32_little_endian [of v]
  by (simp add: deriveKeyH0_def initHash_def blake3Hash_def initHashInput_def
      initHashParams_def Version_def) (simp add: le32_def)

text \<open>
  C1 as stated fails: for a request of memory 0 with one thread the effective memory is 8,
  but bytes 8 to 11 of the hashed stream encode 0. With a hash that returns byte 8 of its
  input, the seed of that call differs from the seed over the stream that the claim
  describes.
\<close>

theorem initHash_effective_memory_counterexample:
  "effectiveMemory 0 1 = 8
   \<and> take 4 (drop 8 (initHashInput [] [] [] [] 1 0 (ucast (1 :: byte)) 0 argon3d)) = le32 0
   \<and> le32 0 \<noteq> le32 (effectiveMemory 0 1)
   \<and> hd (deriveKeyH0 byte8Hash argon3d [] [] [] [] 1 0 1 0) = 0
   \<and> hd (blake3Hash byte8Hash 64
            (initHashInput [] [] [] [] 1 (effectiveMemory 0 1) (ucast (1 :: byte)) 0 argon3d)
          @ replicate 8 0) = 8
   \<and> deriveKeyH0 byte8Hash argon3d [] [] [] [] 1 0 1 0 \<noteq>
       blake3Hash byte8Hash 64
         (initHashInput [] [] [] [] 1 (effectiveMemory 0 1) (ucast (1 :: byte)) 0 argon3d)
       @ replicate 8 0"
proof -
  have e: "effectiveMemory 0 1 = 8" by (simp add: effectiveMemory_def syncPoints_def)
  have u: "[0..<64] = 0 # [1..<64]" by (simp add: upt_rec)
  have a: "hd (deriveKeyH0 byte8Hash argon3d [] [] [] [] 1 0 1 0) = 0"
    by (simp add: deriveKeyH0_def initHash_def blake3Hash_def initHashInput_def
        initHashParams_def le32_def byte8Hash_def u)
  have b: "hd (blake3Hash byte8Hash 64
            (initHashInput [] [] [] [] 1 8 (ucast (1 :: byte)) 0 argon3d)
          @ replicate 8 0) = 8"
    by (simp add: blake3Hash_def initHashInput_def initHashParams_def le32_def byte8Hash_def u)
  have c: "deriveKeyH0 byte8Hash argon3d [] [] [] [] 1 0 1 0 \<noteq>
       blake3Hash byte8Hash 64
         (initHashInput [] [] [] [] 1 8 (ucast (1 :: byte)) 0 argon3d)
       @ replicate 8 0"
  proof
    assume "deriveKeyH0 byte8Hash argon3d [] [] [] [] 1 0 1 0 =
       blake3Hash byte8Hash 64
         (initHashInput [] [] [] [] 1 8 (ucast (1 :: byte)) 0 argon3d)
       @ replicate 8 0"
    then have "hd (deriveKeyH0 byte8Hash argon3d [] [] [] [] 1 0 1 0) =
       hd (blake3Hash byte8Hash 64
         (initHashInput [] [] [] [] 1 8 (ucast (1 :: byte)) 0 argon3d)
       @ replicate 8 0)" by (rule arg_cong)
    then show False unfolding a b by simp
  qed
  show ?thesis unfolding e using a b c
    by (simp add: initHashInput_def initHashParams_def le32_def)
qed

text \<open>
  C6. Under data-dependent addressing (\<^verbatim>\<open>argon3d\<close>, and \<^verbatim>\<open>argon3id\<close> outside slices 0 and 1
  of pass 0) the randomness of a position is word 0 of the block at the offset before it,
  and at the first position of a lane (slice 0, index 0) word 0 of the last block of that
  lane; this is the value handed to \<^verbatim>\<open>indexAlpha\<close> by the loop body.
\<close>

theorem data_dependent_randomness:
  assumes "geometry memory threads" "lanes = memory div threads" "segments = lanes div syncPoints"
    and "lane < threads" "slc < syncPoints" "segmentStart n slc \<le> index" "index < segments"
    and "mode = argon3d \<or> (mode = argon3id \<and> \<not> (n = 0 \<and> slc < 2))"
    and "length (blocks st) = unat memory"
    and "offset st = lane * lanes + slc * segments + index"
  shows "unat (offset st) = unat lane * unat lanes + unat slc * unat segments + unat index
         \<and> unat (prevOffset lanes slc index (offset st)) =
             (if slc = 0 \<and> index = 0 then unat lane * unat lanes + unat lanes - 1
              else unat (offset st) - 1)
         \<and> unat (prevOffset lanes slc index (offset st)) < unat memory
         \<and> segmentRandom P mode n slc index (prevOffset lanes slc index (offset st))
               (blocks st) (addresses st) (input st) =
             Inr (blocks st ! unat (prevOffset lanes slc index (offset st)) ! 0,
                  addresses st, input st)
         \<and> (\<exists>w. indexAlpha (blocks st ! unat (prevOffset lanes slc index (offset st)) ! 0)
                    lanes segments threads n slc lane index = Inr w
                \<and> segmentStep P mode lanes segments threads n slc lane index st =
                    Inr \<lparr>blocks = (blocks st)[unat (offset st) :=
                             processBlockXOR P (blocks st ! unat (offset st))
                               (blocks st ! unat (prevOffset lanes slc index (offset st)))
                               (blocks st ! unat w)],
                         addresses = addresses st, input = input st,
                         offset = offset st + 1\<rparr>)"
proof -
  let ?prev = "prevOffset lanes slc index (offset st)"
  have lay: "layout threads lanes segments"
    using geometry_layout [OF assms(1)] assms(2,3) by simp
  have call: "lane < threads" "slc < 4" "segmentStart n slc \<le> index" "index < segments"
    using assms(4-7) by (simp_all add: syncPoints_def)
  have M: "unat memory = unat threads * unat lanes"
    using geometry_lanes [OF assms(1)] assms(2) by simp
  have len: "length (blocks st) = unat threads * unat lanes" using assms(9) M by simp
  have i: "index \<le> segments" using call(4) by simp
  have off: "unat (offset st) = unat lane * unat lanes + unat slc * unat segments + unat index"
    using offset_nat [OF lay call(1,2) i] assms(10) by simp
  have dd: "\<not> dataIndependent mode n slc"
    using assms(8)
    by (auto simp: dataIndependent_def argon3d_def argon3i_def argon3id_def syncPoints_def)
  have pv: "unat ?prev = (if index = 0 \<and> slc = 0 then unat lane * unat lanes + unat lanes - 1
              else unat lane * unat lanes + unat slc * unat segments + unat index - 1)"
    and pb: "unat ?prev < unat threads * unat lanes"
    using prevOffset_nat [OF lay call(1,2,4)] assms(10) by simp_all
  have r: "segmentRandom P mode n slc index ?prev (blocks st) (addresses st) (input st) =
             Inr (blocks st ! unat ?prev ! 0, addresses st, input st)"
    using dd pb len by (simp add: segmentRandom_def previousRandom_def)
  from segmentStep_ok [OF lay call len assms(10), of P mode] r
  have "\<exists>w. indexAlpha (blocks st ! unat ?prev ! 0) lanes segments threads n slc lane index = Inr w
                \<and> segmentStep P mode lanes segments threads n slc lane index st =
                    Inr \<lparr>blocks = (blocks st)[unat (offset st) :=
                             processBlockXOR P (blocks st ! unat (offset st))
                               (blocks st ! unat ?prev) (blocks st ! unat w)],
                         addresses = addresses st, input = input st,
                         offset = offset st + 1\<rparr>"
    by auto
  moreover have "unat ?prev = (if slc = 0 \<and> index = 0 then unat lane * unat lanes + unat lanes - 1
              else unat (offset st) - 1)"
    unfolding pv off by auto
  ultimately show ?thesis using off pb r M by simp
qed

theorem data_dependent_randomness_witness:
  "geometry 16 2 \<and> segmentStart 1 0 \<le> 0
   \<and> unat (prevOffset 8 0 0 8) = 15
   \<and> segmentRandom idPerm argon3d 1 0 0 (prevOffset 8 0 0 8) (replicate 16 zeroBlock)
        zeroBlock zeroBlock = Inr (replicate 16 zeroBlock ! 15 ! 0, zeroBlock, zeroBlock)"
proof -
  let ?st = "\<lparr>blocks = replicate 16 zeroBlock, addresses = zeroBlock, input = zeroBlock,
              offset = 8\<rparr>"
  have g: "geometry 16 2" by (simp add: geometry_def)
  have d: "(8 :: u32) = 16 div 2" "(2 :: u32) = 8 div syncPoints" by (simp_all add: syncPoints_def)
  have c: "(1 :: u32) < 2" "(0 :: u32) < syncPoints" "segmentStart 1 0 \<le> 0" "(0 :: u32) < 2"
    by (simp_all add: syncPoints_def segmentStart_def)
  have m: "argon3d = argon3d \<or> (argon3d = argon3id \<and> \<not> ((1 :: u32) = 0 \<and> (0 :: u32) < 2))" by simp
  have l: "length (blocks ?st) = unat (16 :: u32)" by simp
  have o: "offset ?st = 1 * 8 + 0 * 2 + 0" by simp
  from data_dependent_randomness [OF g d c m l o, of idPerm]
  show ?thesis using g c by simp
qed

text \<open>
  C7. On a normalised matrix \<^verbatim>\<open>extractKey\<close> returns \<open>H\<close>, read to \<open>keyLen\<close> bytes, over the
  1024-byte little-endian serialisation of the block whose word \<open>i\<close> is word \<open>i\<close> of
  \<open>B[memory - 1]\<close> (the last block of the last lane) XORed with word \<open>i\<close> of the last block
  of each lane \<open>0 .. threads - 2\<close>.
\<close>

theorem extractKey_folds_last_blocks:
  assumes "geometry memory threads" "length B = unat memory"
  shows "extractKey H B memory threads keyLen =
           Inr (extractKeySpec H B (unat threads) (unat (memory div threads)) (unat keyLen))
         \<and> unat threads * unat (memory div threads) - 1 = unat memory - 1
         \<and> length (concat (map (\<lambda>i. le64 (finalWordSpec B (unat threads)
                                           (unat (memory div threads)) i)) [0..<128])) = 1024
         \<and> length (extractKeySpec H B (unat threads) (unat (memory div threads)) (unat keyLen))
              = unat keyLen
         \<and> (\<forall>k < 8. unat (le64 v ! k) = unat v div 256 ^ k mod 256)"
  using extractKey_value [OF assms, of H keyLen] geometry_lanes [OF assms(1)]
    length_serialised [of "finalWordSpec B (unat threads) (unat (memory div threads))"]
  by (simp add: le64_little_endian) (simp add: extractKeySpec_def)

theorem extractKey_folds_last_blocks_witness:
  "geometry 16 2 \<and> length (replicate 16 zeroBlock) = unat (16 :: u32)
   \<and> extractKey byte8Hash (replicate 16 zeroBlock) 16 2 4 =
        Inr (extractKeySpec byte8Hash (replicate 16 zeroBlock) 2 8 4)"
proof -
  have g: "geometry 16 2" by (simp add: geometry_def)
  have l: "length (replicate 16 zeroBlock) = unat (16 :: u32)" by simp
  have d: "unat ((16 :: u32) div 2) = 8" by simp
  from extractKey_folds_last_blocks [OF g l, of byte8Hash 4]
  show ?thesis using g l d by simp
qed

text \<open>
  C8. With the effects of the derivation recorded in program order (\<open>deriveKeyT\<close>, whose
  result is that of \<open>deriveKey\<close>): for \<open>time = 0\<close> or \<open>threads = 0\<close> the derivation is
  rejected with the invalid-parameter error and the record is empty, so no hasher has run
  and no block of the matrix has been allocated, written or compressed. For \<open>time \<ge> 1\<close>
  and \<open>threads \<ge> 1\<close> nothing is rejected: the derivation returns a key, and its record
  starts with the initial hash, the allocation of the effective memory and the filling of
  the first two blocks.
\<close>

theorem deriveKey_parameter_rejection:
  "(time = 0 \<longrightarrow>
      deriveKeyT H P mode password salt secret data time memory threads keyLen
        = ([], Inl RoundsTooSmall))
   \<and> (time \<noteq> 0 \<and> threads = 0 \<longrightarrow>
      deriveKeyT H P mode password salt secret data time memory threads keyLen
        = ([], Inl ParallelismTooLow))
   \<and> snd (deriveKeyT H P mode password salt secret data time memory threads keyLen)
        = deriveKey H P mode password salt secret data time memory threads keyLen
   \<and> (time = 0 \<longrightarrow>
      deriveKey H P mode password salt secret data time memory threads keyLen
        = Inl RoundsTooSmall)
   \<and> (time \<noteq> 0 \<and> threads = 0 \<longrightarrow>
      deriveKey H P mode password salt secret data time memory threads keyLen
        = Inl ParallelismTooLow)
   \<and> (1 \<le> time \<and> 1 \<le> threads \<longrightarrow>
      (\<exists>evs key.
         deriveKeyT H P mode password salt secret data time memory threads keyLen
           = (HashCall 64 # AllocBlocks (unat (effectiveMemory memory threads)) # HashCall 1024
                # WriteBlock 0 # HashCall 1024 # WriteBlock 1 # evs, Inr key)
         \<and> deriveKey H P mode password salt secret data time memory threads keyLen
           = Inr key))"
proof (intro conjI impI)
  show "snd (deriveKeyT H P mode password salt secret data time memory threads keyLen)
        = deriveKey H P mode password salt secret data time memory threads keyLen"
    by (rule deriveKeyT_erase)
next
  assume h: "1 \<le> time \<and> 1 \<le> threads"
  then have t: "1 \<le> time" and th: "1 \<le> threads" by simp_all
  from deriveKey_ok [OF t th, of H P mode password salt secret data memory keyLen]
  obtain key where k: "deriveKey H P mode password salt secret data time memory threads keyLen
                         = Inr key" by blast
  from deriveKeyT_head [OF t th, of H P mode password salt secret data memory keyLen]
  obtain evs where e: "fst (deriveKeyT H P mode password salt secret data time memory threads keyLen)
           = HashCall 64 # AllocBlocks (unat (effectiveMemory memory threads)) # HashCall 1024
               # WriteBlock 0 # HashCall 1024 # WriteBlock 1 # evs" by blast
  have "deriveKeyT H P mode password salt secret data time memory threads keyLen
           = (HashCall 64 # AllocBlocks (unat (effectiveMemory memory threads)) # HashCall 1024
                # WriteBlock 0 # HashCall 1024 # WriteBlock 1 # evs, Inr key)"
    using e k deriveKeyT_erase [of H P mode password salt secret data time memory threads keyLen]
    by (cases "deriveKeyT H P mode password salt secret data time memory threads keyLen") simp
  with k show "\<exists>evs key.
         deriveKeyT H P mode password salt secret data time memory threads keyLen
           = (HashCall 64 # AllocBlocks (unat (effectiveMemory memory threads)) # HashCall 1024
                # WriteBlock 0 # HashCall 1024 # WriteBlock 1 # evs, Inr key)
         \<and> deriveKey H P mode password salt secret data time memory threads keyLen
           = Inr key" by blast
qed (auto simp: deriveKeyT_def deriveKey_def word_less_1)

theorem deriveKey_parameter_rejection_witness:
  "deriveKeyT byte8Hash idPerm argon3i [1] [2] [] [] 0 64 1 32 = ([], Inl RoundsTooSmall)
   \<and> deriveKeyT byte8Hash idPerm argon3i [1] [2] [] [] 1 64 0 32 = ([], Inl ParallelismTooLow)
   \<and> (\<exists>evs key. deriveKeyT byte8Hash idPerm argon3i [1] [2] [] [] 1 64 1 32
                   = (HashCall 64 # AllocBlocks 64 # HashCall 1024 # WriteBlock 0
                        # HashCall 1024 # WriteBlock 1 # evs, Inr key)
         \<and> deriveKey byte8Hash idPerm argon3i [1] [2] [] [] 1 64 1 32 = Inr key)"
proof -
  have m: "unat (effectiveMemory 64 1) = 64"
    by (simp add: effectiveMemory_def syncPoints_def)
  show ?thesis
    using deriveKey_parameter_rejection [of 0 byte8Hash idPerm argon3i "[1]" "[2]" "[]" "[]" 64 1 32]
      deriveKey_parameter_rejection [of 1 byte8Hash idPerm argon3i "[1]" "[2]" "[]" "[]" 64 0 32]
      deriveKey_parameter_rejection [of 1 byte8Hash idPerm argon3i "[1]" "[2]" "[]" "[]" 64 1 32]
    by (simp add: m)
qed

text \<open>
  C9. For \<open>time \<ge> 1\<close> and \<open>threads \<ge> 1\<close>, \<^verbatim>\<open>deriveKey\<close>, \<^verbatim>\<open>Key\<close>, \<^verbatim>\<open>IDKey\<close> and \<^verbatim>\<open>DKey\<close>
  return a byte sequence of length exactly \<open>keyLen\<close>; \<open>keyLen = 0\<close> gives the empty
  sequence.
\<close>

theorem deriveKey_length:
  assumes "1 \<le> time" "1 \<le> threads"
  shows "(\<exists>key. deriveKey H P mode password salt secret data time memory threads keyLen = Inr key
            \<and> length key = unat keyLen)
         \<and> (\<exists>key. Key H P password salt time memory threads keyLen = Inr key
            \<and> length key = unat keyLen)
         \<and> (\<exists>key. IDKey H P password salt time memory threads keyLen = Inr key
            \<and> length key = unat keyLen)
         \<and> (\<exists>key. DKey H P password salt time memory threads keyLen = Inr key
            \<and> length key = unat keyLen)
         \<and> deriveKey H P mode password salt secret data time memory threads 0 = Inr []"
proof -
  have "\<exists>key. deriveKey H P mode password salt secret data time memory threads 0 = Inr key
          \<and> length key = unat (0 :: u32)"
    by (rule deriveKey_ok [OF assms])
  then have "deriveKey H P mode password salt secret data time memory threads 0 = Inr []"
    by auto
  then show ?thesis unfolding Key_def IDKey_def DKey_def
    using deriveKey_ok [OF assms] by blast
qed

theorem deriveKey_length_witness:
  "(1 :: u32) \<le> 3 \<and> (1 :: byte) \<le> 4
   \<and> (\<exists>key. IDKey byte8Hash idPerm [1] [2] 3 100 4 32 = Inr key \<and> length key = 32)
   \<and> deriveKey byte8Hash idPerm argon3d [1] [2] [] [] 3 100 4 0 = Inr []"
proof -
  have h: "(1 :: u32) \<le> 3" "(1 :: byte) \<le> 4" by simp_all
  from deriveKey_length [OF h, of byte8Hash idPerm argon3d "[1]" "[2]" "[]" "[]" 100 32]
  show ?thesis using h by simp
qed

text \<open>
  C4. \<^verbatim>\<open>processSegment\<close> always XORs the compressed value into the destination
  (\<open>segmentStep\<close>); the specification overwrites the destination during pass 0 and XORs
  during later passes (\<open>segmentStepSpec\<close>). On the matrix that \<^verbatim>\<open>initBlocks\<close> returns, and
  on every matrix of \<open>memory\<close> blocks that is zero outside the first two blocks of each
  lane, both fill the matrix with the same blocks, and neither panics. Step by step: in a
  pass \<open>n \<ge> 1\<close> the two steps are the same function, and in pass 0 they agree on every
  state whose destination block is zero, which is so for every position that pass 0
  fills.
\<close>

theorem xor_accumulate_refines_overwrite:
  assumes "geometry memory threads"
  shows "(\<exists>B B'. initBlocks H h0 memory threads = Inr B
            \<and> processBlocks P B time memory threads mode = Inr B'
            \<and> processBlocksSpec P B time memory threads mode = Inr B')
         \<and> (\<forall>B. length B = unat memory
                  \<and> (\<forall>l < unat threads. \<forall>j < unat (memory div threads).
                        2 \<le> j \<longrightarrow> B ! (l * unat (memory div threads) + j) = zeroBlock)
                \<longrightarrow> (\<exists>B'. processBlocks P B time memory threads mode = Inr B'
                        \<and> processBlocksSpec P B time memory threads mode = Inr B'))
         \<and> (n \<noteq> 0 \<longrightarrow>
               segmentStepSpec P mode lanes segments thr n slc lane index st
                 = segmentStep P mode lanes segments thr n slc lane index st)
         \<and> (blocks st ! unat (offset st) = zeroBlock \<longrightarrow>
               segmentStepSpec P mode lanes segments thr 0 slc lane index st
                 = segmentStep P mode lanes segments thr 0 slc lane index st)"
proof (intro conjI allI impI)
  from initBlocks_unfilled [OF assms, of H h0]
  obtain B where b: "initBlocks H h0 memory threads = Inr B"
    and u: "unfilled (unat threads) (unat (memory div threads)) (\<lambda>l. 2) B" by blast
  from processBlocks_equiv [OF assms u, of P time mode] b
  show "\<exists>B B'. initBlocks H h0 memory threads = Inr B
            \<and> processBlocks P B time memory threads mode = Inr B'
            \<and> processBlocksSpec P B time memory threads mode = Inr B'" by blast
next
  fix B
  assume h: "length B = unat memory
                  \<and> (\<forall>l < unat threads. \<forall>j < unat (memory div threads).
                        2 \<le> j \<longrightarrow> B ! (l * unat (memory div threads) + j) = zeroBlock)"
  have M: "unat memory = unat threads * unat (memory div threads)"
    using geometry_lanes [OF assms] by simp
  have "unfilled (unat threads) (unat (memory div threads)) (\<lambda>l. 2) B"
    using h unfolding unfilled_def M by blast
  then show "\<exists>B'. processBlocks P B time memory threads mode = Inr B'
                        \<and> processBlocksSpec P B time memory threads mode = Inr B'"
    by (rule processBlocks_equiv [OF assms])
next
  assume "n \<noteq> 0"
  then show "segmentStepSpec P mode lanes segments thr n slc lane index st
                 = segmentStep P mode lanes segments thr n slc lane index st"
    by (rule segmentStepSpec_later)
next
  assume "blocks st ! unat (offset st) = zeroBlock"
  then show "segmentStepSpec P mode lanes segments thr 0 slc lane index st
                 = segmentStep P mode lanes segments thr 0 slc lane index st"
    by (rule segmentStepSpec_zero_destination)
qed

theorem xor_accumulate_refines_overwrite_witness:
  "geometry 16 2
   \<and> (\<exists>B B'. initBlocks byte8Hash (replicate 72 0) 16 2 = Inr B
         \<and> processBlocks idPerm B 2 16 2 argon3id = Inr B'
         \<and> processBlocksSpec idPerm B 2 16 2 argon3id = Inr B')"
proof -
  have g: "geometry 16 2" by (simp add: geometry_def)
  from xor_accumulate_refines_overwrite [OF g, of byte8Hash "replicate 72 0" idPerm 2 argon3id]
  show ?thesis using g by blast
qed

end
